theory Spec2Isabelle
  imports Complex_Main "HOL-Library.Log_Nat"
begin

section \<open>Numeric arrays\<close>

text \<open>
  The notebook computes with numpy arrays. A one-dimensional float array is a list of
  reals, a two-dimensional one the list of its rows (every row of the same length, as a
  numpy array is rectangular; an array without rows is taken to have no columns).
  Arithmetic on finite values is exact real arithmetic: rounding, overflow and signed
  zeros of float64 are not part of the model, with one exception. In
  \<open>conservation_1hot\<close> the sum of a block and its difference from \<open>1\<close> decide which
  branch is taken and whether a logarithm is NaN; there they are computed as float64
  does (\<open>np_sum\<close>, \<open>np_sub\<close> below). Where the code can produce a non-finite
  value (a division by zero or the logarithm of a non-positive number), the value is
  kept apart in the type \<open>npfloat\<close> below.
  Every Python exception is a value of \<open>error\<close>.
\<close>

datatype error = KeyError | IndexError | TypeError | ValueError | ZeroDivisionError

type_synonym vec = "real list"
type_synonym mat = "real list list"

definition bind_err :: "error + 'a \<Rightarrow> ('a \<Rightarrow> error + 'b) \<Rightarrow> error + 'b" where
  "bind_err m k = (case m of Inl e \<Rightarrow> Inl e | Inr x \<Rightarrow> k x)"

definition ncols :: "'a list list \<Rightarrow> nat" where
  "ncols M = (case M of [] \<Rightarrow> 0 | r # _ \<Rightarrow> length r)"

definition is_matrix :: "nat \<Rightarrow> nat \<Rightarrow> 'a list list \<Rightarrow> bool" where
  "is_matrix r c M = (length M = r \<and> list_all (\<lambda>row. length row = c) M)"

text \<open>Python's \<open>xs[lo:hi]\<close> for non-negative bounds: it never raises, it truncates.\<close>

definition slice :: "nat \<Rightarrow> nat \<Rightarrow> 'a list \<Rightarrow> 'a list" where
  "slice lo hi xs = take (hi - lo) (drop lo xs)"

definition dot :: "vec \<Rightarrow> vec \<Rightarrow> real" where
  "dot xs ys = sum_list (map2 (*) xs ys)"

definition matvec :: "mat \<Rightarrow> vec \<Rightarrow> vec" where
  "matvec M v = map (\<lambda>row. dot row v) M"

text \<open>
  \<open>np.dot\<close> of two vectors, and of a matrix with \<open>c\<close> columns and a vector: numpy raises
  ValueError when the shapes are not aligned. The column count is an argument because a
  slice of rows keeps the column count of the array it is cut from, also when it is
  empty.
\<close>

definition np_dot :: "vec \<Rightarrow> vec \<Rightarrow> error + real" where
  "np_dot xs ys = (if length xs = length ys then Inr (dot xs ys) else Inl ValueError)"

definition np_dot_mv :: "nat \<Rightarrow> mat \<Rightarrow> vec \<Rightarrow> error + vec" where
  "np_dot_mv c M v = (if c = length v then Inr (matvec M v) else Inl ValueError)"

section \<open>The Gaussian pairwise model: energy\<close>

text \<open>
  \<^verbatim>\<open>
  def bm_energy(jcoupling_gauss, ave_freqs, seq):
      h = np.dot(jcoupling_gauss, ave_freqs)
      ener1 = - np.dot(h, seq)
      ener2 = np.dot(seq, np.dot(jcoupling_gauss, seq)) / 2
      return -(ener1 + ener2)
  \<close>
\<close>

definition bm_energy :: "mat \<Rightarrow> vec \<Rightarrow> vec \<Rightarrow> error + real" where
  "bm_energy jcoupling_gauss ave_freqs seq =
     bind_err (np_dot_mv (ncols jcoupling_gauss) jcoupling_gauss ave_freqs) (\<lambda>h.
     bind_err (np_dot h seq) (\<lambda>hs.
     let ener1 = - hs in
     bind_err (np_dot_mv (ncols jcoupling_gauss) jcoupling_gauss seq) (\<lambda>js.
     bind_err (np_dot seq js) (\<lambda>sjs.
     let ener2 = sjs / 2 in
     Inr (- (ener1 + ener2))))))"

text \<open>
  The energy as the specification words it:
  \<open>-[ (coupling\<cdot>frequencies)\<cdot>seq + 1/2 \<cdot> seq\<cdot>(coupling\<cdot>seq) ]\<close>, written with index
  sums over an \<open>n \<times> n\<close> coupling matrix.
\<close>

definition spec_energy :: "nat \<Rightarrow> mat \<Rightarrow> vec \<Rightarrow> vec \<Rightarrow> real" where
  "spec_energy n J f s =
     - ((\<Sum>i<n. (\<Sum>j<n. J ! i ! j * f ! j) * s ! i)
        + (1 / 2) * (\<Sum>i<n. s ! i * (\<Sum>j<n. J ! i ! j * s ! j)))"

text \<open>What the code computes: the linear term enters with the opposite sign.\<close>

definition code_energy :: "nat \<Rightarrow> mat \<Rightarrow> vec \<Rightarrow> vec \<Rightarrow> real" where
  "code_energy n J f s =
     (\<Sum>i<n. (\<Sum>j<n. J ! i ! j * f ! j) * s ! i)
       - (1 / 2) * (\<Sum>i<n. s ! i * (\<Sum>j<n. J ! i ! j * s ! j))"

section \<open>The Metropolis sampler\<close>

text \<open>
  The sampler draws from numpy's global random generator. The draws are an explicit
  argument: for each use of the generator the raw number it delivers.
  \<open>np.random.randint(n)\<close> returns an integer of \<open>[0, n)\<close> and raises ValueError when
  \<open>n \<le> 0\<close>; the raw number is reduced modulo \<open>n\<close>, so that every value of the range
  can occur and no other. \<open>np.random.rand()\<close> is a real of \<open>[0, 1)\<close>.
\<close>

record rng =
  init_raw :: "nat \<Rightarrow> nat"
  pos_raw :: "nat \<Rightarrow> nat"
  sym_raw :: "nat \<Rightarrow> nat"
  unif :: "nat \<Rightarrow> real"

definition randint :: "nat \<Rightarrow> nat \<Rightarrow> error + nat" where
  "randint n raw = (if n = 0 then Inl ValueError else Inr (raw mod n))"

text \<open>\<open>np.random.randint(n, size=L)\<close>: \<open>L\<close> independent draws.\<close>

definition randint_array :: "nat \<Rightarrow> nat \<Rightarrow> (nat \<Rightarrow> nat) \<Rightarrow> error + int list" where
  "randint_array n L raw =
     (if n = 0 then Inl ValueError else Inr (map (\<lambda>i. int (raw i mod n)) [0..<L]))"

text \<open>
  The start configuration as Python passes it: a float (the default is \<open>np.nan\<close>),
  \<open>None\<close>, or a one-dimensional numpy array of an integer dtype or of float64. A float
  is a real or NaN (\<open>None\<close> of the option type).
\<close>

datatype int_dtype = Int16 | Int32 | Int64

datatype start_conf =
    PyNone
  | PyFloat "real option"
  | IntArray int_dtype "int list"
  | FloatArray "real option list"

text \<open>
  \<open>np.isnan(np.sum(start_conf))\<close>: the sum of a float array is NaN as soon as one entry
  is; \<open>np.sum(None)\<close> is \<open>None\<close>, on which \<open>np.isnan\<close> raises TypeError.
\<close>

fun isnan_sum :: "start_conf \<Rightarrow> error + bool" where
  "isnan_sum PyNone = Inl TypeError"
| "isnan_sum (PyFloat x) = Inr (x = None)"
| "isnan_sum (IntArray d xs) = Inr False"
| "isnan_sum (FloatArray xs) = Inr (None \<in> set xs)"

text \<open>
  \<^verbatim>\<open>
  L = len(p)
  if np.isnan(np.sum(start_conf)):
      s = np.random.randint(1, size=L)
      start_conf = s.copy()
  else:
      if type(start_conf[0]) != np.int32:
          print('Please use starting configuration in numeric form or use None for random start.')
          return 1
      else:
          s = start_conf
  \<close>
  The result is \<open>None\<close> when the function prints the message and returns \<open>1\<close>, and
  the initial state otherwise. Indexing a float raises TypeError, indexing an empty
  array IndexError.
\<close>

definition initial_state :: "nat \<Rightarrow> start_conf \<Rightarrow> rng \<Rightarrow> error + int list option" where
  "initial_state L start_conf g =
     bind_err (isnan_sum start_conf) (\<lambda>nan.
       if nan then bind_err (randint_array 1 L (init_raw g)) (\<lambda>s. Inr (Some s))
       else (case start_conf of
               PyNone \<Rightarrow> Inl TypeError
             | PyFloat x \<Rightarrow> Inl TypeError
             | IntArray d xs \<Rightarrow>
                 if xs = [] then Inl IndexError
                 else if d \<noteq> Int32 then Inr None
                 else Inr (Some xs)
             | FloatArray xs \<Rightarrow> if xs = [] then Inl IndexError else Inr None))"

text \<open>
  \<^verbatim>\<open>
  t_1hot = np.repeat(0, q_true-1)
  if t_n == q_true-1:
      pass
  else:
      t_1hot[t_n] = 1
  \<close>
\<close>

definition t_1hot :: "nat \<Rightarrow> nat \<Rightarrow> int list" where
  "t_1hot q_true t_n =
     (if t_n = q_true - 1 then replicate (q_true - 1) 0
      else (replicate (q_true - 1) 0)[t_n := 1])"

text \<open>
  \<open>xs[lo:hi] = b\<close> on a one-dimensional numpy array: the value must have the length of
  the slice, or length one (it is then broadcast); otherwise ValueError.
\<close>

definition assign_slice :: "nat \<Rightarrow> nat \<Rightarrow> 'a list \<Rightarrow> 'a list \<Rightarrow> error + 'a list" where
  "assign_slice lo hi xs b =
     (let k = length (slice lo hi xs) in
      if length b = k then Inr (take lo xs @ b @ drop (lo + k) xs)
      else if length b = 1 then Inr (take lo xs @ replicate k (hd b) @ drop (lo + k) xs)
      else Inl ValueError)"

text \<open>
  \<^verbatim>\<open>
  h = np.dot(jcoupl[lo:hi] , p)
  delta_h = - np.dot( (s-s_t)[lo:hi], h )
  jcoupl_diag = jcoupl[lo:hi,lo:hi]
  jcoupl_marginal = np.dot( jcoupl[lo:hi] , s)
  delta_seq = (s-s_t)[lo:hi]
  delta_coupl1 = np.dot( delta_seq , jcoupl_marginal  )
  delta_coupl2 = - 0.5 * np.dot( delta_seq, np.dot(jcoupl_diag, delta_seq)  )
  energy_diff = delta_h + delta_coupl1 + delta_coupl2
  \<close>
  with \<open>lo = pos_t*(q_true-1)\<close> and \<open>hi = (pos_t+1)*(q_true-1)\<close>. The states are integer
  arrays; their entries are unbounded integers here (a state of zeros and ones never
  leaves the range of its dtype).
\<close>

definition energy_diff :: "mat \<Rightarrow> vec \<Rightarrow> nat \<Rightarrow> int list \<Rightarrow> int list \<Rightarrow> nat \<Rightarrow> error + real" where
  "energy_diff jcoupl p q_true s s_t pos_t =
     (let lo = pos_t * (q_true - 1); hi = (pos_t + 1) * (q_true - 1);
          c = ncols jcoupl;
          d = map2 (-) s s_t
      in
      bind_err (np_dot_mv c (slice lo hi jcoupl) p) (\<lambda>h.
      bind_err (np_dot (map real_of_int (slice lo hi d)) h) (\<lambda>dh.
      let delta_h = - dh;
          jcoupl_diag = map (slice lo hi) (slice lo hi jcoupl) in
      bind_err (np_dot_mv c (slice lo hi jcoupl) (map real_of_int s)) (\<lambda>jcoupl_marginal.
      let delta_seq = map real_of_int (slice lo hi d) in
      bind_err (np_dot delta_seq jcoupl_marginal) (\<lambda>delta_coupl1.
      bind_err (np_dot_mv (min hi c - lo) jcoupl_diag delta_seq) (\<lambda>jd.
      bind_err (np_dot delta_seq jd) (\<lambda>dd.
      let delta_coupl2 = - 0.5 * dd in
      Inr (delta_h + delta_coupl1 + delta_coupl2))))))))"

text \<open>
  One pass of the loop body, for the step number \<open>k\<close>. \<open>len(p)//(q_true-1)\<close> raises
  ZeroDivisionError when \<open>q_true = 1\<close>; for \<open>q_true = 0\<close> the quotient is not positive
  and \<open>randint\<close> raises ValueError.
  \<^verbatim>\<open>
  pos_t = np.random.randint(len(p)//(q_true-1))
  t_n = np.random.randint(q_true)
  ...
  s_t = s.copy()
  s_t[pos_t*(q_true-1):(pos_t+1)*(q_true-1)] = t_1hot
  ...
  prob = min(1, np.exp(- beta * (energy_diff)))
  x = np.random.rand()
  if x < prob:
      s = s_t.copy()
  \<close>
\<close>

definition metropolis_step ::
  "mat \<Rightarrow> vec \<Rightarrow> real \<Rightarrow> nat \<Rightarrow> rng \<Rightarrow> nat \<Rightarrow> int list \<Rightarrow> error + int list" where
  "metropolis_step jcoupl p beta q_true g k s =
     (if q_true = 1 then Inl ZeroDivisionError
      else
        bind_err (randint (length p div (q_true - 1)) (pos_raw g k)) (\<lambda>pos_t.
        bind_err (randint q_true (sym_raw g k)) (\<lambda>t_n.
        bind_err (assign_slice (pos_t * (q_true - 1)) ((pos_t + 1) * (q_true - 1)) s
                    (t_1hot q_true t_n)) (\<lambda>s_t.
        bind_err (energy_diff jcoupl p q_true s s_t pos_t) (\<lambda>e.
        let prob = min 1 (exp (- beta * e));
            x = unif g k
        in Inr (if x < prob then s_t else s))))))"

text \<open>\<open>for k in range(0, Nsteps)\<close>: the steps \<open>0, \<dots>, Nsteps - 1\<close>, in this order.\<close>

primrec metropolis_loop ::
  "mat \<Rightarrow> vec \<Rightarrow> real \<Rightarrow> nat \<Rightarrow> rng \<Rightarrow> nat \<Rightarrow> int list \<Rightarrow> error + int list" where
  "metropolis_loop jcoupl p beta q_true g 0 s = Inr s"
| "metropolis_loop jcoupl p beta q_true g (Suc k) s =
     bind_err (metropolis_loop jcoupl p beta q_true g k s)
       (metropolis_step jcoupl p beta q_true g k)"

datatype chain_result = Returned_1 | Returned_state "int list"

definition metropolis ::
  "mat \<Rightarrow> vec \<Rightarrow> nat \<Rightarrow> real \<Rightarrow> nat \<Rightarrow> start_conf \<Rightarrow> rng \<Rightarrow> error + chain_result" where
  "metropolis jcoupl p Nsteps beta q_true start_conf g =
     bind_err (initial_state (length p) start_conf g) (\<lambda>init.
       case init of
         None \<Rightarrow> Inr Returned_1
       | Some s \<Rightarrow>
           bind_err (metropolis_loop jcoupl p beta q_true g Nsteps s) (\<lambda>s'.
             Inr (Returned_state s')))"

section \<open>The alphabet codec\<close>

text \<open>
  \<^verbatim>\<open>
  AAs = ['-', 'A', 'C', 'D', 'E', 'F', 'G', 'H', 'I', 'K', 'L', 'M', 'N', 'P', 'Q', 'R', 'S', 'T', 'V', 'W', 'Y']
  ntdict = {AAs[k]:k for k in range(len(AAs))}
  \<close>
\<close>

definition AAs :: string where
  "AAs = ''-ACDEFGHIKLMNPQRSTVWY''"

definition ntdict :: "char \<rightharpoonup> nat" where
  "ntdict = map_of (zip AAs [0..<length AAs])"

text \<open>
  An integer array is one-dimensional or two-dimensional (the list of its rows); the
  argument of \<open>seq2num\<close> is a string or a list of strings (for another type the
  function returns \<open>None\<close>; such arguments are left out).
\<close>

datatype int_array = Arr1 "int list" | Arr2 "int list list"

datatype seq_arg = Str string | StrList "string list"

text \<open>\<open>[ntdict[x] for x in seq]\<close>: a symbol that is no key raises KeyError.\<close>

fun encode :: "string \<Rightarrow> error + int list" where
  "encode [] = Inr []"
| "encode (x # xs) =
     (case ntdict x of
        None \<Rightarrow> Inl KeyError
      | Some k \<Rightarrow> bind_err (encode xs) (\<lambda>ks. Inr (int k # ks)))"

fun encode_all :: "string list \<Rightarrow> error + int list list" where
  "encode_all [] = Inr []"
| "encode_all (s # ss) =
     bind_err (encode s) (\<lambda>r. bind_err (encode_all ss) (\<lambda>rs. Inr (r # rs)))"

text \<open>
  \<^verbatim>\<open>
  if type(seq) == str:
      return np.array([ntdict[x] for x in seq], dtype=np.int16)[np.newaxis,:]
  elif type(seq) == list:
      return np.array([[ntdict[x] for x in seq_] for seq_ in seq], dtype=np.int16)
  \<close>
  A string gives an array with one row. \<open>np.array\<close> of an empty list is a
  one-dimensional empty array; of rows of different lengths, with the dtype given, it
  raises ValueError.
\<close>

fun seq2num :: "seq_arg \<Rightarrow> error + int_array" where
  "seq2num (Str s) = bind_err (encode s) (\<lambda>r. Inr (Arr2 [r]))"
| "seq2num (StrList ss) =
     bind_err (encode_all ss) (\<lambda>rs.
       if rs = [] then Inr (Arr1 [])
       else if list_all (\<lambda>r. length r = length (hd rs)) rs then Inr (Arr2 rs)
       else Inl ValueError)"

text \<open>Python's \<open>xs[i]\<close> on a list: a negative index counts from the end.\<close>

definition py_index :: "'a list \<Rightarrow> int \<Rightarrow> error + 'a" where
  "py_index xs i =
     (let n = int (length xs); j = (if i < 0 then n + i else i)
      in if 0 \<le> j \<and> j < n then Inr (xs ! nat j) else Inl IndexError)"

fun decode :: "int list \<Rightarrow> error + string" where
  "decode [] = Inr []"
| "decode (x # xs) =
     bind_err (py_index AAs x) (\<lambda>c. bind_err (decode xs) (\<lambda>cs. Inr (c # cs)))"

text \<open>
  \<^verbatim>\<open>
  def num2seq(num):
      "Inverse of seq2num."
      return ''.join([AAs[x] for x in num])
  \<close>
  Iterating over a two-dimensional array yields its rows, and a row is no list index:
  \<open>AAs[x]\<close> raises TypeError for the first row.
\<close>

fun num2seq :: "int_array \<Rightarrow> error + string" where
  "num2seq (Arr1 xs) = decode xs"
| "num2seq (Arr2 rows) = (if rows = [] then Inr [] else Inl TypeError)"

section \<open>Occurrence vectors\<close>

text \<open>
  The block of position \<open>i\<close> in a gauge-fixed vector with \<open>q_gauge\<close> entries per
  position, and the invariant: each position's block contains at most one \<open>1\<close>.
\<close>

definition block :: "nat \<Rightarrow> nat \<Rightarrow> 'a list \<Rightarrow> 'a list" where
  "block q_gauge i row = slice (i * q_gauge) ((i + 1) * q_gauge) row"

definition one_hot_inv :: "nat \<Rightarrow> ('a :: one) list \<Rightarrow> bool" where
  "one_hot_inv q_gauge row =
     list_all (\<lambda>i. count_list (block q_gauge i row) 1 \<le> 1) [0..<length row div q_gauge]"

text \<open>\<open>msa[:, c] = col\<close>: the column \<open>c\<close> of every row.\<close>

definition set_column :: "nat \<Rightarrow> 'a list \<Rightarrow> 'a list list \<Rightarrow> 'a list list" where
  "set_column c col msa = map2 (\<lambda>row v. row[c := v]) msa col"

text \<open>
  \<^verbatim>\<open>
  def seq2occurrence(seqs_AA, q_true=21):
      seqs = seq2num(seqs_AA)
      B = seqs.shape[0]
      N = seqs.shape[1]
      q_gauge = q_true-1
      msa_exp = np.zeros((B, N * q_gauge), dtype=np.int16)
      for i in range(N):
          for a in range(q_gauge):
              msa_exp[:,i*q_gauge+a] = (seqs[:,i] == a)
      return msa_exp
  \<close>
  \<open>seqs.shape[1]\<close> raises IndexError on a one-dimensional array; \<open>np.zeros\<close> raises
  ValueError for a negative dimension (\<open>q_true = 0\<close> and \<open>N > 0\<close>).
\<close>

definition seq2occurrence :: "seq_arg \<Rightarrow> nat \<Rightarrow> error + int list list" where
  "seq2occurrence seqs_AA q_true =
     bind_err (seq2num seqs_AA) (\<lambda>arr.
       case arr of
         Arr1 xs \<Rightarrow> Inl IndexError
       | Arr2 seqs \<Rightarrow>
           let B = length seqs; N = ncols seqs; q_gauge = q_true - 1 in
           if q_true = 0 \<and> 0 < N then Inl ValueError
           else Inr (fold (\<lambda>i. fold (\<lambda>a. set_column (i * q_gauge + a)
                                  (map (\<lambda>r. if r ! i = int a then 1 else 0) seqs))
                               [0..<q_gauge])
                       [0..<N] (replicate B (replicate (N * q_gauge) 0))))"

text \<open>
  \<^verbatim>\<open>
  def sample_data_indip(fields, beta=1, q=21):
      L = len(fields)//(q-1)
      new_data = np.zeros_like(fields)
      for i in range(L):
          freqs = np.ones(q)
          freqs[:-1] = np.exp( beta * fields[i*(q-1):(i+1)*(q-1)] )
          freqs = freqs / freqs.sum()
          a = np.random.choice(q, p=freqs)
          if a != q-1:
              new_data[i*(q-1) + a] = 1
      return new_data
  \<close>
  The probabilities of a position are positive and sum to one, so \<open>np.random.choice\<close>
  can return every symbol of \<open>[0, q)\<close> and nothing else: the draw of position \<open>i\<close> is
  the raw number \<open>raw i\<close> reduced modulo \<open>q\<close>. For \<open>q = 1\<close> the first line raises
  ZeroDivisionError; for \<open>q = 0\<close> the quotient is not positive and the loop is not entered.
  The argument \<open>fields\<close> is written \<open>flds\<close>.
\<close>

definition site_probs :: "vec \<Rightarrow> real \<Rightarrow> nat \<Rightarrow> nat \<Rightarrow> vec" where
  "site_probs flds beta q i =
     (let freqs = map (\<lambda>h. exp (beta * h)) (slice (i * (q - 1)) ((i + 1) * (q - 1)) flds) @ [1]
      in map (\<lambda>x. x / sum_list freqs) freqs)"

definition sample_data_indip :: "vec \<Rightarrow> real \<Rightarrow> nat \<Rightarrow> (nat \<Rightarrow> nat) \<Rightarrow> error + vec" where
  "sample_data_indip flds beta q raw =
     (if q = 1 then Inl ZeroDivisionError
      else if q = 0 then Inr (replicate (length flds) 0)
      else
        let L = length flds div (q - 1) in
        Inr (fold (\<lambda>i new_data.
                     let a = raw i mod q in
                     if a \<noteq> q - 1 then new_data[i * (q - 1) + a := 1] else new_data)
               [0..<L] (replicate (length flds) 0)))"

section \<open>The independent-site model\<close>

text \<open>
  A float64 value that need not be finite. Dividing by zero and taking the logarithm of
  zero or of a negative number do not raise in numpy (they warn): they return an
  infinity or NaN.
\<close>

datatype npfloat = Fin real | PInf | MInf | NaN

definition np_divide :: "real \<Rightarrow> real \<Rightarrow> npfloat" where
  "np_divide x y =
     (if y \<noteq> 0 then Fin (x / y) else if 0 < x then PInf else if x < 0 then MInf else NaN)"

fun np_log :: "npfloat \<Rightarrow> npfloat" where
  "np_log (Fin x) = (if 0 < x then Fin (ln x) else if x = 0 then MInf else NaN)"
| "np_log PInf = PInf"
| "np_log MInf = NaN"
| "np_log NaN = NaN"

fun is_finite :: "npfloat \<Rightarrow> bool" where
  "is_finite (Fin x) = True"
| "is_finite PInf = False"
| "is_finite MInf = False"
| "is_finite NaN = False"

text \<open>\<open>xs[lo:hi] = v\<close> for a scalar \<open>v\<close>: every entry of the slice is set to it.\<close>

definition fill_slice :: "nat \<Rightarrow> nat \<Rightarrow> 'a \<Rightarrow> 'a list \<Rightarrow> 'a list" where
  "fill_slice lo hi v xs =
     take lo xs @ replicate (length (slice lo hi xs)) v @ drop (lo + length (slice lo hi xs)) xs"

text \<open>
  \<^verbatim>\<open>
  def indip_model_fields(freqs, alpha=0, q=21):
      L = len(freqs)//(q-1)
      pc_freqs = freqs * (1 - alpha) + alpha / q
      freq_gauge = np.zeros_like(pc_freqs)
      for i in range(L):
          freq_gauge[i*(q-1):(i+1)*(q-1)] = 1-np.sum(pc_freqs[i*(q-1):(i+1)*(q-1)])
      return np.log(pc_freqs/freq_gauge)
  \<close>
  \<open>q = 1\<close> raises ZeroDivisionError in the first line, \<open>q = 0\<close> in the second
  (\<open>alpha / q\<close> on Python numbers). The block sum is exact here. In float64 the sum of
  a block of exact sum \<open>1\<close> can fall next to \<open>1\<close>, so that the divisor is tiny instead
  of zero: the theorems below say nothing that rests on a divisor being zero, except
  for a block made of one \<open>1\<close> and zeros, whose float64 sum is exactly \<open>1\<close>.
\<close>

definition indip_model_fields :: "vec \<Rightarrow> real \<Rightarrow> nat \<Rightarrow> error + npfloat list" where
  "indip_model_fields freqs alpha q =
     (if q \<le> 1 then Inl ZeroDivisionError
      else
        let L = length freqs div (q - 1);
            pc_freqs = map (\<lambda>f. f * (1 - alpha) + alpha / real q) freqs;
            freq_gauge =
              fold (\<lambda>i fg. fill_slice (i * (q - 1)) ((i + 1) * (q - 1))
                              (1 - sum_list (slice (i * (q - 1)) ((i + 1) * (q - 1)) pc_freqs)) fg)
                [0..<L] (replicate (length pc_freqs) 0)
        in Inr (map2 (\<lambda>x y. np_log (np_divide x y)) pc_freqs freq_gauge))"

section \<open>Pseudo-counts for the Gaussian model\<close>

fun fold_err :: "('a \<Rightarrow> 'b \<Rightarrow> error + 'b) \<Rightarrow> 'a list \<Rightarrow> 'b \<Rightarrow> error + 'b" where
  "fold_err f [] s = Inr s"
| "fold_err f (x # xs) s = bind_err (f x s) (fold_err f xs)"

text \<open>\<open>M[lo:hi, lo:hi] = 0\<close> truncates like every slice.\<close>

definition zero_block :: "nat \<Rightarrow> nat \<Rightarrow> mat \<Rightarrow> mat" where
  "zero_block lo hi M =
     take lo M @ map (fill_slice lo hi 0) (slice lo hi M) @ drop (lo + length (slice lo hi M)) M"

text \<open>\<open>M[r, c] = v\<close> raises IndexError outside the array.\<close>

definition set_entry :: "nat \<Rightarrow> nat \<Rightarrow> real \<Rightarrow> mat \<Rightarrow> error + mat" where
  "set_entry r c v M =
     (if r < length M \<and> c < ncols M then Inr (M[r := (M ! r)[c := v]]) else Inl IndexError)"

text \<open>
  \<^verbatim>\<open>
  def add_pseudocounts(corr_mat, freqs, alpha, q_true=21):
      q_gauge = q_true - 1
      N = len(freqs) // q_gauge
      f_pseudo = (1-alpha)*freqs + alpha/q_true
      c_pseudo = (1-alpha)*corr_mat + alpha/(q_true**2)
      #Fix the conservation constraints in the diagonal blocks
      for i in range(N):
          c_pseudo[i*q_gauge:(i+1)*q_gauge,i*q_gauge:(i+1)*q_gauge] = 0
          for a in range(q_gauge):
              c_pseudo[i*q_gauge+a,i*q_gauge+a] = f_pseudo[i*q_gauge+a]
      return f_pseudo, c_pseudo
  \<close>
  \<open>f_pseudo[i*q_gauge+a]\<close> is always inside the vector, since \<open>i < len(freqs) // q_gauge\<close>.
\<close>

definition add_pseudocounts :: "mat \<Rightarrow> vec \<Rightarrow> real \<Rightarrow> nat \<Rightarrow> error + vec \<times> mat" where
  "add_pseudocounts corr_mat freqs alpha q_true =
     (if q_true \<le> 1 then Inl ZeroDivisionError
      else
        let q_gauge = q_true - 1;
            N = length freqs div q_gauge;
            f_pseudo = map (\<lambda>f. (1 - alpha) * f + alpha / real q_true) freqs;
            c_pseudo = map (map (\<lambda>c. (1 - alpha) * c + alpha / (real q_true)\<^sup>2)) corr_mat
        in
        bind_err
          (fold_err (\<lambda>i c.
               fold_err (\<lambda>a. set_entry (i * q_gauge + a) (i * q_gauge + a)
                                (f_pseudo ! (i * q_gauge + a)))
                 [0..<q_gauge]
                 (zero_block (i * q_gauge) ((i + 1) * q_gauge) c))
             [0..<N] c_pseudo)
          (\<lambda>c. Inr (f_pseudo, c)))"

section \<open>Conservation\<close>

text \<open>
  A float64 value is the real number it denotes. \<open>fl64\<close> rounds a real to the nearest
  float64, ties to the even significand: the spacing of the floats around \<open>x\<close> is
  \<open>2 ^ (e - 52)\<close> for \<open>2 ^ e \<le> |x| < 2 ^ (e + 1)\<close>, and \<open>2 ^ (- 1074)\<close> below
  \<open>2 ^ (- 1022)\<close>. Overflow to infinity is left out (the sums below stay small). An
  addition or subtraction of two floats is the rounded exact result.
\<close>

definition round_half_even :: "real \<Rightarrow> int" where
  "round_half_even y =
     (let f = \<lfloor>y\<rfloor>; r = y - real_of_int f
      in if r < 1 / 2 then f else if 1 / 2 < r then f + 1 else if even f then f else f + 1)"

definition pow2 :: "int \<Rightarrow> real" where
  "pow2 e = (if 0 \<le> e then 2 ^ nat e else 1 / 2 ^ nat (- e))"

text \<open>The exponent \<open>e\<close> with \<open>2 ^ e \<le> x < 2 ^ (e + 1)\<close>, for \<open>x > 0\<close>.\<close>

definition binade :: "real \<Rightarrow> int" where
  "binade x =
     (if 1 \<le> x then bitlen \<lfloor>x\<rfloor> - 1
      else let k = bitlen \<lfloor>1 / x\<rfloor> - 1 in if x * pow2 k = 1 then - k else - k - 1)"

definition fl64 :: "real \<Rightarrow> real" where
  "fl64 x =
     (if x = 0 then 0
      else let u = pow2 (max (binade \<bar>x\<bar>) (- 1022) - 52)
           in sgn x * real_of_int (round_half_even (\<bar>x\<bar> / u)) * u)"

definition np_add :: "real \<Rightarrow> real \<Rightarrow> real" where
  "np_add x y = fl64 (x + y)"

definition np_sub :: "real \<Rightarrow> real \<Rightarrow> real" where
  "np_sub x y = fl64 (x - y)"

text \<open>
  \<open>np.sum\<close> along the contiguous axis adds in the order of numpy's pairwise summation:
  fewer than \<open>8\<close> numbers from left to right starting at \<open>0\<close>; up to \<open>128\<close> numbers with
  eight running sums over the leading multiple of \<open>8\<close>, combined as
  \<open>((r0 + r1) + (r2 + r3)) + ((r4 + r5) + (r6 + r7))\<close>, then the rest from left to right;
  more numbers split in two parts, the first of a length that is a multiple of \<open>8\<close>. The
  result is added to the initial value \<open>0\<close>.
\<close>

definition split_point :: "nat \<Rightarrow> nat" where
  "split_point n = n div 2 - (n div 2) mod 8"

definition unrolled_sum :: "real list \<Rightarrow> real" where
  "unrolled_sum a =
     (let n = length a;
          m = n - n mod 8;
          r = foldl (\<lambda>r i. map2 np_add r (slice i (i + 8) a)) (take 8 a)
                (map (\<lambda>k. 8 * k) [1..<m div 8]);
          res = np_add (np_add (np_add (r ! 0) (r ! 1)) (np_add (r ! 2) (r ! 3)))
                       (np_add (np_add (r ! 4) (r ! 5)) (np_add (r ! 6) (r ! 7)))
      in foldl np_add res (drop m a))"

function pairwise_sum :: "real list \<Rightarrow> real" where
  "pairwise_sum a =
     (if length a < 8 then foldl np_add 0 a
      else if length a \<le> 128 then unrolled_sum a
      else np_add (pairwise_sum (take (split_point (length a)) a))
                  (pairwise_sum (drop (split_point (length a)) a)))"
  by pat_completeness auto
termination
  by (relation "measure length") (auto simp: split_point_def)

definition np_sum :: "real list \<Rightarrow> real" where
  "np_sum a = np_add 0 (pairwise_sum a)"

text \<open>
  \<^verbatim>\<open>
  def conservation_1hot(freqs, q):
      reshaped_freqs = freqs.reshape(freqs.shape[0] // (q-1), q-1)
      lastAA_freqs = 1 - np.sum(reshaped_freqs, axis=1)
      conss = []
      for i, f in enumerate(reshaped_freqs):
          ff = f[f != 0]
          lf = lastAA_freqs[i]
          if lf != 0:
              conss.append(np.log2(q) + np.sum(ff * np.log2(ff)) + lf * np.log2(lf))
          else:
              conss.append(np.log2(q) + np.sum(ff * np.log2(ff)))
      return conss
  \<close>
  The entries of \<open>freqs\<close> are float64 values. \<open>lf\<close> is the float64 difference of \<open>1\<close> and
  the float64 sum of the block: the test \<open>lf != 0\<close> and the sign of \<open>lf\<close> are decided on
  it. \<open>np.log2\<close> of a negative number is NaN, and NaN spreads through the sum: a
  position with a negative \<open>lf\<close> or a negative frequency has the value NaN
  (\<open>nan_guard\<close>). The value of a position without NaN is kept exact.
  \<open>q = 1\<close> raises ZeroDivisionError; \<open>reshape\<close> raises ValueError when the length is
  no multiple of \<open>q - 1\<close>, and for \<open>q = 0\<close>.
\<close>

definition nan_guard :: "real list \<Rightarrow> real \<Rightarrow> npfloat" where
  "nan_guard xs v = (if list_ex (\<lambda>x. x < 0) xs then NaN else Fin v)"

definition conservation_row :: "nat \<Rightarrow> real list \<Rightarrow> npfloat" where
  "conservation_row q f =
     (let ff = filter (\<lambda>x. x \<noteq> 0) f;
          lf = np_sub 1 (np_sum f)
      in if lf \<noteq> 0
         then nan_guard (lf # ff)
                (log 2 (real q) + (\<Sum>x\<leftarrow>ff. x * log 2 x) + lf * log 2 lf)
         else nan_guard ff (log 2 (real q) + (\<Sum>x\<leftarrow>ff. x * log 2 x)))"

definition conservation_1hot :: "vec \<Rightarrow> nat \<Rightarrow> error + npfloat list" where
  "conservation_1hot freqs q =
     (if q = 1 then Inl ZeroDivisionError
      else if q = 0 \<or> length freqs mod (q - 1) \<noteq> 0 then Inl ValueError
      else Inr (map (\<lambda>i. conservation_row q (block (q - 1) i freqs))
                  [0..<length freqs div (q - 1)]))"

text \<open>
  The conservation as the specification words it: \<open>log2(q) + \<Sum> f \<cdot> log2(f)\<close> over the
  frequencies of all \<open>q\<close> symbols of a position, where a symbol of frequency zero
  contributes zero.
\<close>

definition xlog2 :: "real \<Rightarrow> real" where
  "xlog2 x = (if x = 0 then 0 else x * log 2 x)"

definition conservation_value :: "nat \<Rightarrow> vec \<Rightarrow> real" where
  "conservation_value q ps = log 2 (real q) + (\<Sum>x\<leftarrow>ps. xlog2 x)"

section \<open>Facts about the array operations\<close>

lemma dot_sum:
  "length xs = n \<Longrightarrow> length ys = n \<Longrightarrow> dot xs ys = (\<Sum>i<n. xs ! i * ys ! i)"
proof -
  assume a: "length xs = n" "length ys = n"
  have "dot xs ys = (\<Sum>i<length (zip xs ys). (map2 (*) xs ys) ! i)"
    unfolding dot_def by (simp add: sum_list_sum_nth atLeast0LessThan)
  also have "\<dots> = (\<Sum>i<n. xs ! i * ys ! i)"
    using a by simp
  finally show ?thesis .
qed

lemma length_matvec [simp]: "length (matvec M v) = length M"
  by (simp add: matvec_def)

lemma nth_matvec: "i < length M \<Longrightarrow> matvec M v ! i = dot (M ! i) v"
  by (simp add: matvec_def)

lemma is_matrix_row: "is_matrix r c M \<Longrightarrow> i < r \<Longrightarrow> length (M ! i) = c"
  by (auto simp: is_matrix_def list_all_length)

lemma is_matrix_ncols: "is_matrix r c M \<Longrightarrow> 0 < r \<Longrightarrow> ncols M = c"
  by (cases M) (auto simp: is_matrix_def ncols_def)

lemma matvec_sum:
  assumes "is_matrix r c M" "length v = c" "i < r"
  shows "matvec M v ! i = (\<Sum>j<c. M ! i ! j * v ! j)"
proof -
  have "length M = r" using assms(1) by (simp add: is_matrix_def)
  then have "matvec M v ! i = dot (M ! i) v" using assms(3) by (simp add: nth_matvec)
  also have "\<dots> = (\<Sum>j<c. M ! i ! j * v ! j)"
    using is_matrix_row [OF assms(1) assms(3)] assms(2) by (rule dot_sum)
  finally show ?thesis .
qed

lemma bm_energy_value:
  assumes "is_matrix n n J" "length f = n" "length s = n"
  shows "bm_energy J f s = Inr (code_energy n J f s)"
proof (cases "n = 0")
  case True
  then show ?thesis
    using assms
    by (simp add: bm_energy_def bind_err_def np_dot_mv_def np_dot_def is_matrix_def
        ncols_def code_energy_def dot_def matvec_def)
next
  case False
  then have nc: "ncols J = n" using assms(1) by (simp add: is_matrix_ncols)
  have lJ: "length J = n" using assms(1) by (simp add: is_matrix_def)
  have h: "dot (matvec J f) s = (\<Sum>i<n. (\<Sum>j<n. J ! i ! j * f ! j) * s ! i)"
    using assms lJ by (simp add: dot_sum [where n = n] matvec_sum [where r = n and c = n])
  have q: "dot s (matvec J s) = (\<Sum>i<n. s ! i * (\<Sum>j<n. J ! i ! j * s ! j))"
    using assms lJ by (simp add: dot_sum [where n = n] matvec_sum [where r = n and c = n])
  show ?thesis
    using assms nc lJ
    by (simp add: bm_energy_def bind_err_def np_dot_mv_def np_dot_def h q code_energy_def)
qed

section \<open>The energy formula\<close>

text \<open>
  C1 (as amended). For every \<open>n \<times> n\<close> coupling matrix \<open>J\<close> and all vectors \<open>f\<close> and \<open>s\<close> of
  length \<open>n\<close>, \<open>bm_energy J f s\<close> returns \<open>(J\<cdot>f)\<cdot>s - 1/2 \<cdot> s\<cdot>(J\<cdot>s)\<close>: the quadratic term is
  negated, the linear cross-term is not.
\<close>

theorem C1_bm_energy_formula:
  "is_matrix n n J \<Longrightarrow> length f = n \<Longrightarrow> length s = n \<Longrightarrow>
   bm_energy J f s =
     Inr ((\<Sum>i<n. (\<Sum>j<n. J ! i ! j * f ! j) * s ! i)
          - (1 / 2) * (\<Sum>i<n. s ! i * (\<Sum>j<n. J ! i ! j * s ! j)))"
  using bm_energy_value [of n J f s] by (simp add: code_energy_def)

theorem C1_bm_energy_formula_witness:
  "is_matrix 2 2 [[1, 2], [2, 3 :: real]] \<and> length [1 / 2, 1 / 4 :: real] = 2 \<and>
   length [1, 0 :: real] = 2 \<and>
   bm_energy [[1, 2], [2, 3]] [1 / 2, 1 / 4] [1, 0] = Inr (1 / 2)"
  using C1_bm_energy_formula [of 2 "[[1, 2], [2, 3]]" "[1 / 2, 1 / 4]" "[1, 0]"]
  by (simp add: is_matrix_def lessThan_Suc eval_nat_numeral)

text \<open>
  C1 as the specification states it fails: for \<open>J = [[1]]\<close>, \<open>f = [1]\<close>, \<open>s = [1]\<close> the code
  returns \<open>1/2\<close>, the specification's formula gives \<open>-3/2\<close>.
\<close>

theorem C1_spec_energy_counterexample:
  "bm_energy [[1]] [1] [1] = Inr (1 / 2) \<and> spec_energy 1 [[1]] [1] [1] = - (3 / 2)"
  by (simp add: bm_energy_def bind_err_def np_dot_mv_def np_dot_def ncols_def dot_def
      matvec_def spec_energy_def)

section \<open>The local energy difference\<close>


lemma length_slice: "length (slice lo hi xs) = min hi (length xs) - lo"
  by (auto simp: slice_def)

lemma nth_slice: "lo + k < hi \<Longrightarrow> hi \<le> length xs \<Longrightarrow> slice lo hi xs ! k = xs ! (lo + k)"
  by (simp add: slice_def)

lemma sum_block:
  fixes g :: "nat \<Rightarrow> real"
  assumes "lo + m \<le> n" "\<And>i. i < n \<Longrightarrow> i < lo \<or> lo + m \<le> i \<Longrightarrow> g i = 0"
  shows "(\<Sum>i<n. g i) = (\<Sum>k<m. g (lo + k))"
proof -
  have "(\<Sum>i<n. g i) = (\<Sum>i\<in>{lo..<lo + m}. g i)"
    by (rule sum.mono_neutral_right) (use assms in \<open>auto simp: not_less\<close>)
  also have "\<dots> = (\<Sum>k\<in>{0..<m}. g (lo + k))"
    using sum.shift_bounds_nat_ivl [of g 0 lo m] by (simp add: add.commute)
  finally show ?thesis by (simp add: atLeast0LessThan)
qed

lemma quad_form_diff:
  fixes J :: "nat \<Rightarrow> nat \<Rightarrow> real" and x d h :: "nat \<Rightarrow> real"
  assumes sym: "\<And>i j. i < n \<Longrightarrow> j < n \<Longrightarrow> J i j = J j i"
  shows "((\<Sum>i<n. h i * (x i - d i)) - (1 / 2) * (\<Sum>i<n. (x i - d i) * (\<Sum>j<n. J i j * (x j - d j))))
         - ((\<Sum>i<n. h i * x i) - (1 / 2) * (\<Sum>i<n. x i * (\<Sum>j<n. J i j * x j)))
       = - (\<Sum>i<n. d i * h i) + (\<Sum>i<n. d i * (\<Sum>j<n. J i j * x j))
         - (1 / 2) * (\<Sum>i<n. d i * (\<Sum>j<n. J i j * d j))"
proof -
  have swap: "(\<Sum>i<n. x i * (\<Sum>j<n. J i j * d j)) = (\<Sum>i<n. d i * (\<Sum>j<n. J i j * x j))"
  proof -
    have "(\<Sum>i<n. x i * (\<Sum>j<n. J i j * d j)) = (\<Sum>i<n. \<Sum>j<n. x i * J i j * d j)"
      by (simp add: sum_distrib_left mult.assoc)
    also have "\<dots> = (\<Sum>j<n. \<Sum>i<n. x i * J i j * d j)"
      by (rule sum.swap)
    also have "\<dots> = (\<Sum>j<n. \<Sum>i<n. d j * (J j i * x i))"
      by (intro sum.cong refl) (simp add: sym mult_ac)
    also have "\<dots> = (\<Sum>j<n. d j * (\<Sum>i<n. J j i * x i))"
      by (simp add: sum_distrib_left)
    finally show ?thesis .
  qed
  have lin: "(\<Sum>i<n. h i * (x i - d i)) = (\<Sum>i<n. h i * x i) - (\<Sum>i<n. d i * h i)"
    by (simp add: right_diff_distrib sum_subtractf mult.commute)
  have inner: "\<And>i. (\<Sum>j<n. J i j * (x j - d j)) = (\<Sum>j<n. J i j * x j) - (\<Sum>j<n. J i j * d j)"
    by (simp add: right_diff_distrib sum_subtractf)
  have quad: "(\<Sum>i<n. (x i - d i) * (\<Sum>j<n. J i j * (x j - d j)))
      = (\<Sum>i<n. x i * (\<Sum>j<n. J i j * x j)) - (\<Sum>i<n. x i * (\<Sum>j<n. J i j * d j))
        - (\<Sum>i<n. d i * (\<Sum>j<n. J i j * x j)) + (\<Sum>i<n. d i * (\<Sum>j<n. J i j * d j))"
    unfolding inner by (simp add: algebra_simps sum_subtractf sum.distrib)
  show ?thesis
    unfolding lin quad swap by (simp add: algebra_simps)
qed

lemma ncols_square: "is_matrix n n J \<Longrightarrow> ncols J = n"
  by (cases J) (auto simp: is_matrix_def ncols_def)

lemma energy_diff_value:
  fixes s s_t :: "int list"
  assumes M: "is_matrix n n J" and lp: "length p = n" and ls: "length s = n"
    and lt: "length s_t = n" and hi: "(pos_t + 1) * (q_true - 1) \<le> n"
  defines "lo \<equiv> pos_t * (q_true - 1)" and "m \<equiv> q_true - 1"
  defines "d \<equiv> (\<lambda>i. real_of_int (s ! i - s_t ! i))"
  shows "energy_diff J p q_true s s_t pos_t =
         Inr (- (\<Sum>k<m. d (lo + k) * (\<Sum>j<n. J ! (lo + k) ! j * p ! j))
              + (\<Sum>k<m. d (lo + k) * (\<Sum>j<n. J ! (lo + k) ! j * real_of_int (s ! j)))
              - (1 / 2) * (\<Sum>k<m. d (lo + k) * (\<Sum>l<m. J ! (lo + k) ! (lo + l) * d (lo + l))))"
proof -
  define hi where "hi = (pos_t + 1) * (q_true - 1)"
  define B where "B = slice lo hi J"
  define ds where "ds = map real_of_int (slice lo hi (map2 (-) s s_t))"
  define D where "D = map (slice lo hi) B"
  have him: "hi = lo + m" by (simp add: hi_def lo_def m_def)
  have hin: "hi \<le> n" using hi by (simp add: hi_def)
  have lJ: "length J = n" using M by (simp add: is_matrix_def)
  have nc: "ncols J = n" using M by (rule ncols_square)
  have lB: "length B = m" using hin lJ him by (simp add: B_def length_slice)
  have Bk: "\<And>k. k < m \<Longrightarrow> B ! k = J ! (lo + k)"
    using hin lJ him by (simp add: B_def nth_slice)
  have row: "\<And>k. k < m \<Longrightarrow> length (J ! (lo + k)) = n"
    using is_matrix_row [OF M] hin him by simp
  have lds: "length ds = m" using hin ls lt him by (simp add: ds_def length_slice)
  have dsk: "\<And>k. k < m \<Longrightarrow> ds ! k = d (lo + k)"
    using hin ls lt him by (simp add: ds_def length_slice nth_slice d_def)
  have mvB: "\<And>v k. length v = n \<Longrightarrow> k < m \<Longrightarrow>
      matvec B v ! k = (\<Sum>j<n. J ! (lo + k) ! j * v ! j)"
    using lB Bk row by (simp add: nth_matvec dot_sum [where n = n])
  have "dot ds (matvec B p) = (\<Sum>k<m. ds ! k * matvec B p ! k)"
    using lds lB by (simp add: dot_sum [where n = m])
  also have "\<dots> = (\<Sum>k<m. d (lo + k) * (\<Sum>j<n. J ! (lo + k) ! j * p ! j))"
    by (intro sum.cong refl) (simp add: dsk mvB lp)
  finally have t1: "dot ds (matvec B p)
      = (\<Sum>k<m. d (lo + k) * (\<Sum>j<n. J ! (lo + k) ! j * p ! j))" .
  have "dot ds (matvec B (map real_of_int s)) = (\<Sum>k<m. ds ! k * matvec B (map real_of_int s) ! k)"
    using lds lB by (simp add: dot_sum [where n = m])
  also have "\<dots> = (\<Sum>k<m. d (lo + k) * (\<Sum>j<n. J ! (lo + k) ! j * real_of_int (s ! j)))"
    by (intro sum.cong refl) (simp add: dsk mvB ls)
  finally have t2: "dot ds (matvec B (map real_of_int s))
      = (\<Sum>k<m. d (lo + k) * (\<Sum>j<n. J ! (lo + k) ! j * real_of_int (s ! j)))" .
  have lD: "length D = m" using lB by (simp add: D_def)
  have Drow: "\<And>k. k < m \<Longrightarrow> length (D ! k) = m"
    using lB Bk row hin him by (simp add: D_def length_slice)
  have Dkl: "\<And>k l. k < m \<Longrightarrow> l < m \<Longrightarrow> D ! k ! l = J ! (lo + k) ! (lo + l)"
    using lB Bk row hin him by (simp add: D_def nth_slice)
  have mvD: "\<And>k. k < m \<Longrightarrow> matvec D ds ! k = (\<Sum>l<m. J ! (lo + k) ! (lo + l) * d (lo + l))"
  proof -
    fix k assume k: "k < m"
    have "matvec D ds ! k = dot (D ! k) ds" using k lD by (simp add: nth_matvec)
    also have "\<dots> = (\<Sum>l<m. D ! k ! l * ds ! l)"
      using Drow [OF k] lds by (rule dot_sum)
    also have "\<dots> = (\<Sum>l<m. J ! (lo + k) ! (lo + l) * d (lo + l))"
      by (intro sum.cong refl) (simp add: Dkl k dsk)
    finally show "matvec D ds ! k = (\<Sum>l<m. J ! (lo + k) ! (lo + l) * d (lo + l))" .
  qed
  have "dot ds (matvec D ds) = (\<Sum>k<m. ds ! k * matvec D ds ! k)"
    using lds lD by (simp add: dot_sum [where n = m])
  also have "\<dots> = (\<Sum>k<m. d (lo + k) * (\<Sum>l<m. J ! (lo + k) ! (lo + l) * d (lo + l)))"
    by (intro sum.cong refl) (simp add: dsk mvD)
  finally have t3: "dot ds (matvec D ds)
      = (\<Sum>k<m. d (lo + k) * (\<Sum>l<m. J ! (lo + k) ! (lo + l) * d (lo + l)))" .
  have c3: "min hi n - lo = m" using hin him by simp
  have "energy_diff J p q_true s s_t pos_t =
      bind_err (np_dot_mv n B p) (\<lambda>h.
      bind_err (np_dot ds h) (\<lambda>dh.
      bind_err (np_dot_mv n B (map real_of_int s)) (\<lambda>jm.
      bind_err (np_dot ds jm) (\<lambda>dc1.
      bind_err (np_dot_mv (min hi n - lo) D ds) (\<lambda>jd.
      bind_err (np_dot ds jd) (\<lambda>dd. Inr (- dh + dc1 + - 0.5 * dd)))))))"
    unfolding energy_diff_def Let_def nc B_def ds_def D_def hi_def lo_def ..
  also have "\<dots> = Inr (- dot ds (matvec B p) + dot ds (matvec B (map real_of_int s))
      + - 0.5 * dot ds (matvec D ds))"
    using lp ls lds lB lD c3 by (simp add: bind_err_def np_dot_mv_def np_dot_def)
  finally show ?thesis unfolding t1 t2 t3 by simp
qed

lemma code_energy_diff_block:
  fixes s s_t :: "int list"
  assumes M: "is_matrix n n J" and sym: "\<forall>i<n. \<forall>j<n. J ! i ! j = J ! j ! i"
    and lp: "length p = n" and ls: "length s = n" and lt: "length s_t = n"
    and hi: "lo + m \<le> n"
    and same: "\<forall>i<n. i < lo \<or> lo + m \<le> i \<longrightarrow> s_t ! i = s ! i"
  defines "d \<equiv> (\<lambda>i. real_of_int (s ! i - s_t ! i))"
  shows "code_energy n J p (map real_of_int s_t) - code_energy n J p (map real_of_int s)
       = - (\<Sum>k<m. d (lo + k) * (\<Sum>j<n. J ! (lo + k) ! j * p ! j))
         + (\<Sum>k<m. d (lo + k) * (\<Sum>j<n. J ! (lo + k) ! j * real_of_int (s ! j)))
         - (1 / 2) * (\<Sum>k<m. d (lo + k) * (\<Sum>l<m. J ! (lo + k) ! (lo + l) * d (lo + l)))"
proof -
  define x where "x = (\<lambda>i. real_of_int (s ! i))"
  define h where "h = (\<lambda>i. \<Sum>j<n. J ! i ! j * p ! j)"
  define Jf where "Jf = (\<lambda>i j. J ! i ! j)"
  have d0: "\<And>i. i < n \<Longrightarrow> i < lo \<or> lo + m \<le> i \<Longrightarrow> d i = 0"
    using same by (auto simp: d_def)
  have xt: "\<And>i. x i - d i = real_of_int (s_t ! i)"
    by (simp add: x_def d_def)
  have et: "code_energy n J p (map real_of_int s_t)
      = (\<Sum>i<n. h i * (x i - d i)) - (1 / 2) * (\<Sum>i<n. (x i - d i) * (\<Sum>j<n. Jf i j * (x j - d j)))"
    unfolding code_energy_def xt h_def Jf_def using lt by simp
  have es: "code_energy n J p (map real_of_int s)
      = (\<Sum>i<n. h i * x i) - (1 / 2) * (\<Sum>i<n. x i * (\<Sum>j<n. Jf i j * x j))"
    unfolding code_energy_def x_def h_def Jf_def using ls by simp
  have symf: "\<And>i j. i < n \<Longrightarrow> j < n \<Longrightarrow> Jf i j = Jf j i"
    using sym by (simp add: Jf_def)
  have full: "code_energy n J p (map real_of_int s_t) - code_energy n J p (map real_of_int s)
      = - (\<Sum>i<n. d i * h i) + (\<Sum>i<n. d i * (\<Sum>j<n. Jf i j * x j))
        - (1 / 2) * (\<Sum>i<n. d i * (\<Sum>j<n. Jf i j * d j))"
    unfolding et es using symf by (rule quad_form_diff)
  have b1: "(\<Sum>i<n. d i * h i) = (\<Sum>k<m. d (lo + k) * h (lo + k))"
    using hi by (rule sum_block) (simp add: d0)
  have b2: "(\<Sum>i<n. d i * (\<Sum>j<n. Jf i j * x j)) = (\<Sum>k<m. d (lo + k) * (\<Sum>j<n. Jf (lo + k) j * x j))"
    using hi by (rule sum_block) (simp add: d0)
  have inner: "\<And>i. (\<Sum>j<n. Jf i j * d j) = (\<Sum>l<m. Jf i (lo + l) * d (lo + l))"
    using hi by (rule sum_block) (simp add: d0)
  have b3: "(\<Sum>i<n. d i * (\<Sum>j<n. Jf i j * d j))
      = (\<Sum>k<m. d (lo + k) * (\<Sum>l<m. Jf (lo + k) (lo + l) * d (lo + l)))"
    unfolding inner using hi by (rule sum_block) (simp add: d0)
  show ?thesis
    unfolding full b1 b2 b3 by (simp add: h_def Jf_def x_def)
qed

text \<open>
  C2. For a symmetric \<open>n \<times> n\<close> coupling matrix \<open>J\<close>, a frequency vector \<open>p\<close>, a state \<open>s\<close>
  of zeros and ones and a proposed state \<open>s_t\<close> that differs from \<open>s\<close> only in the block of
  the position \<open>pos_t\<close>, the local formula of \<open>metropolis\<close>
  (\<open>delta_h + delta_coupl1 + delta_coupl2\<close>) returns \<open>bm_energy J p s_t - bm_energy J p s\<close>.
\<close>

theorem C2_local_energy_difference:
  fixes s s_t :: "int list"
  assumes "is_matrix n n J" and "\<forall>i<n. \<forall>j<n. J ! i ! j = J ! j ! i"
    and "length p = n" and "length s = n" and "length s_t = n"
    and "set s \<subseteq> {0, 1}" and "set s_t \<subseteq> {0, 1}"
    and "(pos_t + 1) * (q_true - 1) \<le> n"
    and "\<forall>i<n. i < pos_t * (q_true - 1) \<or> (pos_t + 1) * (q_true - 1) \<le> i \<longrightarrow> s_t ! i = s ! i"
  shows "\<exists>e e_t e_s. energy_diff J p q_true s s_t pos_t = Inr e
           \<and> bm_energy J p (map real_of_int s_t) = Inr e_t
           \<and> bm_energy J p (map real_of_int s) = Inr e_s
           \<and> e = e_t - e_s"
proof -
  have hi: "pos_t * (q_true - 1) + (q_true - 1) \<le> n" using assms(8) by simp
  have same: "\<forall>i<n. i < pos_t * (q_true - 1) \<or> pos_t * (q_true - 1) + (q_true - 1) \<le> i
      \<longrightarrow> s_t ! i = s ! i"
    using assms(9) by simp
  have et: "bm_energy J p (map real_of_int s_t) = Inr (code_energy n J p (map real_of_int s_t))"
    using assms by (simp add: bm_energy_value)
  have es: "bm_energy J p (map real_of_int s) = Inr (code_energy n J p (map real_of_int s))"
    using assms by (simp add: bm_energy_value)
  have "energy_diff J p q_true s s_t pos_t
      = Inr (code_energy n J p (map real_of_int s_t) - code_energy n J p (map real_of_int s))"
    unfolding code_energy_diff_block [OF assms(1,2,3,4,5) hi same]
    using assms(1,3,4,5,8) by (rule energy_diff_value)
  with et es show ?thesis by blast
qed

theorem C2_local_energy_difference_witness:
  "energy_diff [[1, 2], [2, 3]] [1 / 2, 1 / 4] 2 [1, 0] [0, 0] 0 = Inr (- (1 / 2))
   \<and> bm_energy [[1, 2], [2, 3]] [1 / 2, 1 / 4] (map real_of_int [0, 0]) = Inr 0
   \<and> bm_energy [[1, 2], [2, 3]] [1 / 2, 1 / 4] (map real_of_int [1, 0]) = Inr (1 / 2)"
proof -
  have sym: "\<forall>i<2. \<forall>j<2. [[1, 2], [2, 3 :: real]] ! i ! j = [[1, 2], [2, 3]] ! j ! i"
    by (simp add: numeral_2_eq_2 less_Suc_eq)
  have same: "\<forall>i<2. i < 0 * (2 - 1) \<or> (0 + 1) * (2 - 1) \<le> i \<longrightarrow> [0, 0 :: int] ! i = [1, 0] ! i"
    by (simp add: numeral_2_eq_2 less_Suc_eq)
  have et: "bm_energy [[1, 2], [2, 3]] [1 / 2, 1 / 4] (map real_of_int [0, 0]) = Inr 0"
    by (simp add: bm_energy_def bind_err_def np_dot_mv_def np_dot_def ncols_def dot_def
        matvec_def)
  have es: "bm_energy [[1, 2], [2, 3]] [1 / 2, 1 / 4] (map real_of_int [1, 0]) = Inr (1 / 2)"
    by (simp add: bm_energy_def bind_err_def np_dot_mv_def np_dot_def ncols_def dot_def
        matvec_def)
  from C2_local_energy_difference [of 2 "[[1, 2], [2, 3]]" "[1 / 2, 1 / 4]" "[1, 0]" "[0, 0]" 0 2,
      OF _ sym _ _ _ _ _ _ same]
  obtain e e_t e_s where
    "energy_diff [[1, 2], [2, 3]] [1 / 2, 1 / 4] 2 [1, 0] [0, 0] 0 = Inr e"
    "bm_energy [[1, 2], [2, 3]] [1 / 2, 1 / 4] (map real_of_int [0, 0]) = Inr e_t"
    "bm_energy [[1, 2], [2, 3]] [1 / 2, 1 / 4] (map real_of_int [1, 0]) = Inr e_s"
    "e = e_t - e_s"
    by (auto simp: is_matrix_def)
  with et es show ?thesis by simp
qed

section \<open>Blocks with at most one 1\<close>

lemma count_le_one_iff:
  "count_list xs y \<le> 1 \<longleftrightarrow> (\<forall>a<length xs. \<forall>b<length xs. xs ! a = y \<and> xs ! b = y \<longrightarrow> a = b)"
proof (induction xs)
  case Nil
  then show ?case by simp
next
  case (Cons x xs)
  show ?case
  proof (cases "x = y")
    case True
    have "count_list xs y = 0 \<longleftrightarrow> (\<forall>b<length xs. xs ! b \<noteq> y)"
      by (metis count_list_0_iff in_set_conv_nth)
    moreover have "(\<forall>a<length (x # xs). \<forall>b<length (x # xs). (x # xs) ! a = y \<and> (x # xs) ! b = y \<longrightarrow> a = b)
        \<longleftrightarrow> (\<forall>b<length xs. xs ! b \<noteq> y)"
    proof
      assume h: "\<forall>a<length (x # xs). \<forall>b<length (x # xs). (x # xs) ! a = y \<and> (x # xs) ! b = y \<longrightarrow> a = b"
      show "\<forall>b<length xs. xs ! b \<noteq> y"
      proof (intro allI impI notI)
        fix b assume "b < length xs" "xs ! b = y"
        with h [rule_format, of 0 "Suc b"] True show False by simp
      qed
    next
      assume h: "\<forall>b<length xs. xs ! b \<noteq> y"
      show "\<forall>a<length (x # xs). \<forall>b<length (x # xs). (x # xs) ! a = y \<and> (x # xs) ! b = y \<longrightarrow> a = b"
      proof (intro allI impI)
        fix a b assume "a < length (x # xs)" "b < length (x # xs)"
          "(x # xs) ! a = y \<and> (x # xs) ! b = y"
        with h show "a = b" by (cases a; cases b) auto
      qed
    qed
    ultimately show ?thesis using True by simp
  next
    case False
    have "(\<forall>a<length (x # xs). \<forall>b<length (x # xs). (x # xs) ! a = y \<and> (x # xs) ! b = y \<longrightarrow> a = b)
        \<longleftrightarrow> (\<forall>a<length xs. \<forall>b<length xs. xs ! a = y \<and> xs ! b = y \<longrightarrow> a = b)"
    proof
      assume h: "\<forall>a<length (x # xs). \<forall>b<length (x # xs). (x # xs) ! a = y \<and> (x # xs) ! b = y \<longrightarrow> a = b"
      show "\<forall>a<length xs. \<forall>b<length xs. xs ! a = y \<and> xs ! b = y \<longrightarrow> a = b"
      proof (intro allI impI)
        fix a b assume "a < length xs" "b < length xs" "xs ! a = y \<and> xs ! b = y"
        with h [rule_format, of "Suc a" "Suc b"] show "a = b" by simp
      qed
    next
      assume h: "\<forall>a<length xs. \<forall>b<length xs. xs ! a = y \<and> xs ! b = y \<longrightarrow> a = b"
      show "\<forall>a<length (x # xs). \<forall>b<length (x # xs). (x # xs) ! a = y \<and> (x # xs) ! b = y \<longrightarrow> a = b"
      proof (intro allI impI)
        fix a b assume "a < length (x # xs)" "b < length (x # xs)"
          "(x # xs) ! a = y \<and> (x # xs) ! b = y"
        with h False show "a = b" by (cases a; cases b) auto
      qed
    qed
    with Cons.IH False show ?thesis by simp
  qed
qed

lemma block_bound: "i < n div m \<Longrightarrow> i * m + m \<le> (n :: nat)"
proof -
  assume "i < n div m"
  then have "Suc i \<le> n div m" by simp
  then have "Suc i * m \<le> (n div m) * m" by (rule mult_le_mono1)
  also have "\<dots> \<le> n" by simp
  finally show ?thesis by (simp add: add.commute)
qed

lemma length_block: "i < length row div m \<Longrightarrow> length (block m i row) = m"
  using block_bound [of i "length row" m] by (simp add: block_def length_slice)

lemma nth_block: "i < length row div m \<Longrightarrow> a < m \<Longrightarrow> block m i row ! a = row ! (i * m + a)"
  using block_bound [of i "length row" m] by (simp add: block_def nth_slice)

lemma one_hot_inv_iff:
  "one_hot_inv m row \<longleftrightarrow>
   (\<forall>i<length row div m. \<forall>a<m. \<forall>b<m. row ! (i * m + a) = 1 \<and> row ! (i * m + b) = 1 \<longrightarrow> a = b)"
  unfolding one_hot_inv_def list_all_iff count_le_one_iff
  by (auto simp: length_block nth_block)

section \<open>The start configuration of the sampler\<close>

lemma initial_state_default: "initial_state L (PyFloat None) g = Inr (Some (replicate L 0))"
  by (simp add: initial_state_def bind_err_def randint_array_def map_replicate_const)

text \<open>
  C10. With the default \<open>start_conf\<close> (NaN) the initial state of the chain is the
  all-zeros vector of the length of \<open>p\<close>, whatever the random generator delivers:
  \<open>np.random.randint(1, size=L)\<close> draws from \<open>[0, 1)\<close>. So zero steps return it, and
  \<open>Nsteps\<close> steps are the loop started on it.
\<close>

theorem C10_default_start_all_zeros:
  "initial_state (length p) (PyFloat None) g = Inr (Some (replicate (length p) 0))
   \<and> metropolis jcoupl p 0 beta q_true (PyFloat None) g
       = Inr (Returned_state (replicate (length p) 0))
   \<and> metropolis jcoupl p Nsteps beta q_true (PyFloat None) g
       = bind_err (metropolis_loop jcoupl p beta q_true g Nsteps (replicate (length p) 0))
           (\<lambda>s. Inr (Returned_state s))"
  by (simp add: metropolis_def initial_state_default bind_err_def)

text \<open>
  C9 (as amended). A non-empty start configuration whose sum is not NaN and whose
  entries are not \<open>np.int32\<close> (an array of another integer dtype, or a float array
  without NaN) makes \<open>metropolis\<close> return the integer \<open>1\<close> before any sampling step; no
  exception is raised.
\<close>

theorem C9_invalid_type_returns_1:
  "(d \<noteq> Int32 \<and> xs \<noteq> [] \<longrightarrow>
      metropolis jcoupl p Nsteps beta q_true (IntArray d xs) g = Inr Returned_1)
   \<and> (ys \<noteq> [] \<and> None \<notin> set ys \<longrightarrow>
      metropolis jcoupl p Nsteps beta q_true (FloatArray ys) g = Inr Returned_1)"
  by (simp add: metropolis_def initial_state_def bind_err_def)

theorem C9_invalid_type_returns_1_witness:
  "metropolis [[0]] [1 / 2] 1 1 2 (IntArray Int64 [0])
      \<lparr>init_raw = (\<lambda>_. 0), pos_raw = (\<lambda>_. 0), sym_raw = (\<lambda>_. 0), unif = (\<lambda>_. 0)\<rparr>
     = Inr Returned_1
   \<and> metropolis [[0]] [1 / 2] 1 1 2 (FloatArray [Some (1 / 2)])
      \<lparr>init_raw = (\<lambda>_. 0), pos_raw = (\<lambda>_. 0), sym_raw = (\<lambda>_. 0), unif = (\<lambda>_. 0)\<rparr>
     = Inr Returned_1"
  using C9_invalid_type_returns_1 [of Int64 "[0]" "[[0]]" "[1 / 2]" 1 1 2
      "\<lparr>init_raw = (\<lambda>_. 0), pos_raw = (\<lambda>_. 0), sym_raw = (\<lambda>_. 0), unif = (\<lambda>_. 0)\<rparr>"
      "[Some (1 / 2)]"]
  by simp

text \<open>
  C9 as the specification states it fails: a float array that contains a NaN is taken
  for the default, replaced by the all-zeros start, and the sampling runs. Here one
  step flips the only position and the chain returns \<open>[1]\<close>.
\<close>

theorem C9_nan_array_counterexample:
  "metropolis [[0]] [1 / 2] 1 1 2 (FloatArray [Some (1 / 2), None])
     \<lparr>init_raw = (\<lambda>_. 0), pos_raw = (\<lambda>_. 0), sym_raw = (\<lambda>_. 0), unif = (\<lambda>_. 0)\<rparr>
   = Inr (Returned_state [1])"
  by (simp add: metropolis_def initial_state_def bind_err_def randint_array_def
      metropolis_step_def randint_def assign_slice_def slice_def t_1hot_def energy_diff_def
      np_dot_mv_def np_dot_def ncols_def dot_def matvec_def)

section \<open>The invariant along the Metropolis chain\<close>

lemma block_lt: "i < j \<Longrightarrow> i * m + m \<le> j * (m :: nat)"
proof -
  assume "i < j"
  then have "Suc i \<le> j" by simp
  then have "Suc i * m \<le> j * m" by (rule mult_le_mono1)
  then show ?thesis by (simp add: add.commute)
qed

lemma length_t_1hot [simp]: "length (t_1hot q t) = q - 1"
  by (simp add: t_1hot_def)

lemma nth_update_any: "a < length xs \<Longrightarrow> xs[t := v] ! a = (if a = t then v else xs ! a)"
  by (cases "t < length xs") (auto simp: nth_list_update)

lemma t_1hot_unique:
  "a < q - 1 \<Longrightarrow> b < q - 1 \<Longrightarrow> t_1hot q t ! a = 1 \<Longrightarrow> t_1hot q t ! b = 1 \<Longrightarrow> a = b"
  by (auto simp: t_1hot_def nth_update_any split: if_splits)

lemma assign_slice_cases:
  assumes "assign_slice lo (lo + m) s b = Inr s_t" "length b = m"
  shows "s_t = s \<or> (lo + m \<le> length s \<and> s_t = take lo s @ b @ drop (lo + m) s)"
proof -
  let ?k = "length (slice lo (lo + m) s)"
  have k: "?k = min (lo + m) (length s) - lo" by (rule length_slice)
  show ?thesis
  proof (cases "m = ?k")
    case True
    then have st: "s_t = take lo s @ b @ drop (lo + m) s"
      using assms by (simp add: assign_slice_def Let_def)
    show ?thesis
    proof (cases "m = 0")
      case True
      then show ?thesis using st assms(2) by simp
    next
      case False
      then have "lo + m \<le> length s" using True k by (simp add: min_def split: if_splits)
      then show ?thesis using st by simp
    qed
  next
    case False
    then have "m = 1" and st: "s_t = take lo s @ replicate ?k (hd b) @ drop (lo + ?k) s"
      using assms by (auto simp: assign_slice_def Let_def split: if_splits)
    then have "?k = 0" using False k by (simp add: min_def split: if_splits)
    then show ?thesis using st by simp
  qed
qed

lemma nth_replace_block:
  assumes "lo + m \<le> length s" "length b = m" "j < length s"
  shows "(take lo s @ b @ drop (lo + m) s) ! j
         = (if j < lo then s ! j else if j < lo + m then b ! (j - lo) else s ! j)"
  using assms by (auto simp: nth_append min_def)

lemma length_replace_block:
  "lo + m \<le> length s \<Longrightarrow> length b = m \<Longrightarrow> length (take lo s @ b @ drop (lo + m) s) = length s"
  by simp

lemma replace_block_inv:
  fixes s :: "('a :: one) list"
  assumes inv: "one_hot_inv m s" and fit: "pos * m + m \<le> length s" and lb: "length b = m"
    and ub: "\<And>a c. a < m \<Longrightarrow> c < m \<Longrightarrow> b ! a = 1 \<Longrightarrow> b ! c = 1 \<Longrightarrow> a = c"
  shows "one_hot_inv m (take (pos * m) s @ b @ drop (pos * m + m) s)"
proof -
  let ?s' = "take (pos * m) s @ b @ drop (pos * m + m) s"
  have len: "length ?s' = length s" using fit lb by simp
  have old: "\<And>i a c. i < length s div m \<Longrightarrow> a < m \<Longrightarrow> c < m \<Longrightarrow>
      s ! (i * m + a) = 1 \<Longrightarrow> s ! (i * m + c) = 1 \<Longrightarrow> a = c"
    using inv unfolding one_hot_inv_iff by blast
  have nth: "\<And>i a. i < length s div m \<Longrightarrow> a < m \<Longrightarrow>
      ?s' ! (i * m + a) = (if i = pos then b ! a else s ! (i * m + a))"
  proof -
    fix i a assume i: "i < length s div m" and a: "a < m"
    have j: "i * m + a < length s" using block_bound [OF i] a by simp
    consider "i < pos" | "i = pos" | "pos < i" by linarith
    then show "?s' ! (i * m + a) = (if i = pos then b ! a else s ! (i * m + a))"
    proof cases
      case 1
      then have "i * m + a < pos * m" using block_lt [of i pos m] a by simp
      then show ?thesis using 1 nth_replace_block [OF fit lb j] by simp
    next
      case 2
      then show ?thesis using nth_replace_block [OF fit lb j] a by simp
    next
      case 3
      then have "pos * m + m \<le> i * m + a" using block_lt [of pos i m] by simp
      then show ?thesis using 3 nth_replace_block [OF fit lb j] by simp
    qed
  qed
  show ?thesis
    unfolding one_hot_inv_iff len
  proof (intro allI impI)
    fix i a c
    assume i: "i < length s div m" and a: "a < m" and c: "c < m"
      and one: "?s' ! (i * m + a) = 1 \<and> ?s' ! (i * m + c) = 1"
    show "a = c"
    proof (cases "i = pos")
      case True
      then show ?thesis using one nth [OF i a] nth [OF i c] ub [OF a c] by simp
    next
      case False
      then show ?thesis using one nth [OF i a] nth [OF i c] old [OF i a c] by simp
    qed
  qed
qed

lemma metropolis_step_inv:
  assumes "metropolis_step jcoupl p beta q_true g k s = Inr s'" "one_hot_inv (q_true - 1) s"
  shows "one_hot_inv (q_true - 1) s'"
proof -
  obtain pos_t t_n s_t where
    a: "assign_slice (pos_t * (q_true - 1)) (pos_t * (q_true - 1) + (q_true - 1)) s
          (t_1hot q_true t_n) = Inr s_t"
    and s': "s' = s_t \<or> s' = s"
    using assms(1)
    by (auto simp: metropolis_step_def bind_err_def Let_def add.commute
        split: if_splits sum.splits)
  from assign_slice_cases [OF a] have
    "s_t = s \<or> (pos_t * (q_true - 1) + (q_true - 1) \<le> length s
      \<and> s_t = take (pos_t * (q_true - 1)) s @ t_1hot q_true t_n
          @ drop (pos_t * (q_true - 1) + (q_true - 1)) s)"
    by simp
  then have "one_hot_inv (q_true - 1) s_t"
  proof
    assume "s_t = s" then show ?thesis using assms(2) by simp
  next
    assume h: "pos_t * (q_true - 1) + (q_true - 1) \<le> length s
      \<and> s_t = take (pos_t * (q_true - 1)) s @ t_1hot q_true t_n
          @ drop (pos_t * (q_true - 1) + (q_true - 1)) s"
    have "one_hot_inv (q_true - 1) (take (pos_t * (q_true - 1)) s @ t_1hot q_true t_n
          @ drop (pos_t * (q_true - 1) + (q_true - 1)) s)"
      using assms(2) _ _ t_1hot_unique
      by (rule replace_block_inv) (use h in auto)
    then show ?thesis using h by simp
  qed
  then show ?thesis using s' assms(2) by auto
qed

lemma metropolis_loop_inv:
  "metropolis_loop jcoupl p beta q_true g k s = Inr s' \<Longrightarrow> one_hot_inv (q_true - 1) s
   \<Longrightarrow> one_hot_inv (q_true - 1) s'"
proof (induction k arbitrary: s')
  case 0
  then show ?case by simp
next
  case (Suc k)
  then obtain s1 where l: "metropolis_loop jcoupl p beta q_true g k s = Inr s1"
    and st: "metropolis_step jcoupl p beta q_true g k s1 = Inr s'"
    by (auto simp: bind_err_def split: sum.splits)
  from Suc.IH [OF l Suc.prems(2)] have "one_hot_inv (q_true - 1) s1" .
  with st show ?case by (rule metropolis_step_inv)
qed

lemma one_hot_inv_zeros: "one_hot_inv m (replicate n (0 :: 'a :: zero_neq_one))"
proof -
  have "\<And>i a. i < n div m \<Longrightarrow> a < m \<Longrightarrow> i * m + a < n"
    using block_bound [of _ n m] by fastforce
  then show ?thesis unfolding one_hot_inv_iff by auto
qed

section \<open>The invariant of seq2occurrence and sample_data_indip\<close>

lemma fold_project:
  assumes step: "\<And>x s. P s \<Longrightarrow> P (F x s) \<and> pr (F x s) = f x (pr s)" and init: "P s"
  shows "P (fold F xs s) \<and> pr (fold F xs s) = fold f xs (pr s)"
  using init
proof (induction xs arbitrary: s)
  case Nil
  then show ?case by simp
next
  case (Cons x xs)
  from step [OF Cons.prems] have "P (F x s)" and e: "pr (F x s) = f x (pr s)" by simp_all
  from Cons.IH [OF this(1)] e show ?case by simp
qed

lemma set_column_row:
  "length col = length msa \<Longrightarrow> b < length msa \<Longrightarrow>
   length (set_column c col msa) = length msa \<and> set_column c col msa ! b = (msa ! b)[c := col ! b]"
  by (simp add: set_column_def)

lemma fold_update_block_nth:
  "j < length r \<Longrightarrow>
   length (fold (\<lambda>a row. row[base + a := v a]) [0..<n] r) = length r \<and>
   fold (\<lambda>a row. row[base + a := v a]) [0..<n] r ! j
     = (if base \<le> j \<and> j < base + n then v (j - base) else r ! j)"
proof (induction n)
  case 0
  then show ?case by auto
next
  case (Suc n)
  then show ?case by (auto simp: nth_update_any)
qed

lemma div_mod_block: "a < m \<Longrightarrow> (i * m + a) div m = i \<and> (i * m + a) mod (m :: nat) = a"
  by simp

lemma in_block_div: "n * m \<le> j \<Longrightarrow> j < n * m + m \<Longrightarrow> j div m = n \<and> j mod m = j - n * (m :: nat)"
proof -
  assume a: "n * m \<le> j" "j < n * m + m"
  then have "j = n * m + (j - n * m)" "j - n * m < m" by simp_all
  then show ?thesis using div_mod_block [of "j - n * m" m n] by metis
qed

lemma fold_fill_blocks_nth:
  "j < length r \<Longrightarrow>
   length (fold (\<lambda>i. fold (\<lambda>a row. row[i * m + a := v i a]) [0..<m]) [0..<n] r) = length r \<and>
   fold (\<lambda>i. fold (\<lambda>a row. row[i * m + a := v i a]) [0..<m]) [0..<n] r ! j
     = (if j < n * m then v (j div m) (j mod m) else r ! j)"
proof (induction n)
  case 0
  then show ?case by simp
next
  case (Suc n)
  let ?r = "fold (\<lambda>i. fold (\<lambda>a row. row[i * m + a := v i a]) [0..<m]) [0..<n] r"
  have IH: "length ?r = length r"
    "?r ! j = (if j < n * m then v (j div m) (j mod m) else r ! j)"
    using Suc by simp_all
  have j: "j < length ?r" using IH(1) Suc.prems by simp
  note in1 = fold_update_block_nth [OF j, of "n * m" "v n" m]
  show ?case
  proof (cases "n * m \<le> j \<and> j < n * m + m")
    case True
    then show ?thesis using in1 IH in_block_div [of n m j] by (simp add: add.commute)
  next
    case False
    then show ?thesis using in1 IH by (auto simp: add.commute)
  qed
qed

lemma length_fold_preserve:
  "(\<And>x s. length (F x s) = length s) \<Longrightarrow> length (fold F xs s) = length s"
  by (induction xs arbitrary: s) simp_all

lemma seq2occurrence_rows:
  fixes seqs :: "int list list" and m N :: nat
  defines "col \<equiv> (\<lambda>i a. map (\<lambda>r. if r ! i = int a then 1 else (0 :: int)) seqs)"
  defines "F \<equiv> fold (\<lambda>i. fold (\<lambda>a. set_column (i * m + a) (col i a)) [0..<m]) [0..<N]
                  (replicate (length seqs) (replicate (N * m) 0))"
  assumes b: "b < length seqs"
  shows "length F = length seqs \<and> one_hot_inv m (F ! b)"
proof -
  define v where "v = (\<lambda>i a. if seqs ! b ! i = int a then 1 else (0 :: int))"
  define P where "P = (\<lambda>msa :: int list list. length msa = length seqs)"
  have colb: "\<And>i a. col i a ! b = v i a" using b by (simp add: col_def v_def)
  have inner: "\<And>i s. P s \<Longrightarrow>
      P (fold (\<lambda>a. set_column (i * m + a) (col i a)) [0..<m] s) \<and>
      fold (\<lambda>a. set_column (i * m + a) (col i a)) [0..<m] s ! b
        = fold (\<lambda>a row. row[i * m + a := v i a]) [0..<m] (s ! b)"
  proof -
    fix i s assume Ps: "P s"
    show "P (fold (\<lambda>a. set_column (i * m + a) (col i a)) [0..<m] s) \<and>
      fold (\<lambda>a. set_column (i * m + a) (col i a)) [0..<m] s ! b
        = fold (\<lambda>a row. row[i * m + a := v i a]) [0..<m] (s ! b)"
    proof (rule fold_project [where P = P and pr = "\<lambda>msa. msa ! b"])
      fix a and s' :: "int list list" assume "P s'"
      then show "P (set_column (i * m + a) (col i a) s') \<and>
          set_column (i * m + a) (col i a) s' ! b = (s' ! b)[i * m + a := v i a]"
        using b set_column_row [of "col i a" s' b "i * m + a"]
        by (simp add: P_def col_def v_def)
    qed (rule Ps)
  qed
  have P0: "P (replicate (length seqs) (replicate (N * m) 0))" by (simp add: P_def)
  have outer: "P F \<and> F ! b
      = fold (\<lambda>i. fold (\<lambda>a row. row[i * m + a := v i a]) [0..<m]) [0..<N]
          (replicate (length seqs) (replicate (N * m) 0) ! b)"
    unfolding F_def
    by (rule fold_project [where P = P and pr = "\<lambda>msa. msa ! b"]) (use inner P0 in auto)
  then have Fb: "F ! b
      = fold (\<lambda>i. fold (\<lambda>a row. row[i * m + a := v i a]) [0..<m]) [0..<N] (replicate (N * m) 0)"
    using b by simp
  have len: "length (F ! b) = N * m"
    unfolding Fb by (simp add: length_fold_preserve)
  have nth: "\<And>j. j < N * m \<Longrightarrow> F ! b ! j = v (j div m) (j mod m)"
  proof -
    fix j assume j: "j < N * m"
    then have "j < length (replicate (N * m) (0 :: int))" by simp
    from fold_fill_blocks_nth [OF this, of m v N] j show "F ! b ! j = v (j div m) (j mod m)"
      unfolding Fb by simp
  qed
  have inv: "one_hot_inv m (F ! b)"
    unfolding one_hot_inv_iff len
  proof (intro allI impI)
    fix i a c
    assume i: "i < N * m div m" and a: "a < m" and c: "c < m"
      and one: "F ! b ! (i * m + a) = 1 \<and> F ! b ! (i * m + c) = 1"
    have ja: "i * m + a < N * m" using block_bound [OF i] a by simp
    have jc: "i * m + c < N * m" using block_bound [OF i] c by simp
    have "v i a = 1" "v i c = 1"
      using one nth [OF ja] nth [OF jc] a c by simp_all
    then show "a = c" by (simp add: v_def split: if_splits)
  qed
  from outer inv show ?thesis by (simp add: P_def)
qed

lemma seq2occurrence_inv:
  assumes "seq2occurrence seqs_AA q_true = Inr msa"
  shows "list_all (one_hot_inv (q_true - 1)) msa"
proof -
  from assms obtain seqs where
    m: "msa = fold (\<lambda>i. fold (\<lambda>a. set_column (i * (q_true - 1) + a)
                        (map (\<lambda>r. if r ! i = int a then 1 else 0) seqs)) [0..<q_true - 1])
                [0..<ncols seqs] (replicate (length seqs) (replicate (ncols seqs * (q_true - 1)) 0))"
    by (auto simp: seq2occurrence_def bind_err_def Let_def
        split: sum.splits int_array.splits if_splits)
  show ?thesis
    unfolding list_all_length
  proof (intro allI impI)
    fix b assume b: "b < length msa"
    have l: "\<And>b. b < length seqs \<Longrightarrow> length msa = length seqs"
      unfolding m using seq2occurrence_rows [of _ seqs "q_true - 1" "ncols seqs"] by simp
    have "length msa = length seqs"
    proof (cases "seqs = []")
      case True
      then show ?thesis unfolding m by (simp add: ncols_def)
    next
      case False
      then show ?thesis using l [of 0] by simp
    qed
    with b have "b < length seqs" by simp
    then show "one_hot_inv (q_true - 1) (msa ! b)"
      unfolding m using seq2occurrence_rows [of b seqs "q_true - 1" "ncols seqs"] by simp
  qed
qed

lemma sample_fold_nth:
  fixes r :: "real list" and raw :: "nat \<Rightarrow> nat"
  assumes q: "2 \<le> q" and j: "j < length r"
  defines "G \<equiv> (\<lambda>n. fold (\<lambda>i new_data. let a = raw i mod q in
                      if a \<noteq> q - 1 then new_data[i * (q - 1) + a := 1] else new_data) [0..<n] r)"
  shows "length (G n) = length r \<and>
         G n ! j = (if j < n * (q - 1) \<and> raw (j div (q - 1)) mod q = j mod (q - 1) then 1 else r ! j)"
proof (induction n)
  case 0
  then show ?case by (simp add: G_def)
next
  case (Suc n)
  define m where "m = q - 1"
  define a where "a = raw n mod q"
  have m: "0 < m" and am: "a \<le> m" using q by (simp_all add: m_def a_def less_Suc_eq_le [symmetric])
  have IH: "length (G n) = length r"
    "G n ! j = (if j < n * m \<and> raw (j div m) mod q = j mod m then 1 else r ! j)"
    using Suc by (simp_all add: m_def)
  have step: "G (Suc n) = (if a \<noteq> m then (G n)[n * m + a := 1] else G n)"
    by (simp add: G_def m_def a_def Let_def)
  have jl: "j < length (G n)" using IH(1) j by simp
  have blk: "n * m \<le> j \<Longrightarrow> j < n * m + m \<Longrightarrow> j div m = n \<and> j mod m = j - n * m"
    by (rule in_block_div)
  have below: "j < n * m \<Longrightarrow> j < n * m + m" by simp
  have goal: "G (Suc n) ! j = (if j < n * m + m \<and> raw (j div m) mod q = j mod m then 1 else r ! j)"
  proof (cases "n * m \<le> j \<and> j < n * m + m")
    case inb: True
    then have dm: "j div m = n" "j mod m = j - n * m" using blk by simp_all
    have nlt: "\<not> j < n * m" using inb by simp
    have lt: "j - n * m < m" using inb by auto
    show ?thesis
    proof (cases "a = m")
      case True
      then have "raw (j div m) mod q \<noteq> j mod m" using dm lt a_def by simp
      then show ?thesis using step True IH(2) nlt by simp
    next
      case False
      show ?thesis
      proof (cases "j = n * m + a")
        case True
        then show ?thesis using step False jl dm a_def inb
          by (simp add: nth_update_any)
      next
        case ne: False
        then have "raw (j div m) mod q \<noteq> j mod m" using dm a_def inb by auto
        then show ?thesis using step False jl ne IH(2) nlt by (simp add: nth_update_any)
      qed
    qed
  next
    case False
    then have out: "j < n * m \<or> n * m + m \<le> j" by auto
    then have ne: "j \<noteq> n * m + a \<or> a = m" using am by auto
    have eq: "(j < n * m + m) = (j < n * m)" using out by auto
    have "G (Suc n) ! j = G n ! j"
      using step jl ne by (auto simp: nth_update_any)
    then show ?thesis using IH(2) eq by simp
  qed
  show ?case
    using goal IH(1) step by (simp add: m_def add.commute)
qed

lemma sample_data_indip_inv:
  assumes "sample_data_indip flds beta q raw = Inr v"
  shows "one_hot_inv (q - 1) v"
proof (cases "2 \<le> q")
  case False
  then have "q = 0" using assms by (cases "q = 1") (auto simp: sample_data_indip_def)
  then show ?thesis by (simp add: one_hot_inv_def)
next
  case True
  define G where "G = fold (\<lambda>i new_data. let a = raw i mod q in
      if a \<noteq> q - 1 then new_data[i * (q - 1) + a := 1] else new_data)
      [0..<length flds div (q - 1)] (replicate (length flds) (0 :: real))"
  have v: "v = G" using assms True by (simp add: sample_data_indip_def G_def Let_def)
  have len: "length G = length flds"
    unfolding G_def by (rule trans [OF length_fold_preserve]) (simp_all add: Let_def)
  have nth: "\<And>j. j < length flds \<Longrightarrow>
      G ! j = (if j < (length flds div (q - 1)) * (q - 1) \<and> raw (j div (q - 1)) mod q = j mod (q - 1)
               then 1 else 0)"
    unfolding G_def
    using sample_fold_nth [OF True, of _ "replicate (length flds) 0" raw "length flds div (q - 1)"]
    by simp
  show ?thesis
    unfolding v one_hot_inv_iff len
  proof (intro allI impI)
    fix i a c
    assume i: "i < length flds div (q - 1)" and a: "a < q - 1" and c: "c < q - 1"
      and one: "G ! (i * (q - 1) + a) = 1 \<and> G ! (i * (q - 1) + c) = 1"
    have ja: "i * (q - 1) + a < length flds" using block_bound [OF i] a by simp
    have jc: "i * (q - 1) + c < length flds" using block_bound [OF i] c by simp
    have "raw i mod q = a" using one nth [OF ja] a by (simp split: if_splits)
    moreover have "raw i mod q = c" using one nth [OF jc] c by (simp split: if_splits)
    ultimately show "a = c" by simp
  qed
qed

text \<open>
  The probabilities that \<open>sample_data_indip\<close> hands to \<open>np.random.choice\<close> are positive
  and sum to one: every symbol can be drawn.
\<close>

lemma sum_list_divide_const:
  fixes xs :: "real list"
  shows "sum_list (map (\<lambda>x. x / c) xs) = sum_list xs / c"
  by (induction xs) (simp_all add: add_divide_distrib)

lemma site_probs_distribution:
  "(\<forall>x\<in>set (site_probs flds beta q i). 0 < x) \<and> sum_list (site_probs flds beta q i) = 1"
proof -
  define freqs where
    "freqs = map (\<lambda>h. exp (beta * h)) (slice (i * (q - 1)) ((i + 1) * (q - 1)) flds) @ [1 :: real]"
  have pos: "\<forall>x\<in>set freqs. 0 < x" by (auto simp: freqs_def)
  have "0 \<le> sum_list (map (\<lambda>h. exp (beta * h)) (slice (i * (q - 1)) ((i + 1) * (q - 1)) flds))"
    by (rule sum_list_nonneg) auto
  then have S: "0 < sum_list freqs" by (simp add: freqs_def)
  have sp: "site_probs flds beta q i = map (\<lambda>x. x / sum_list freqs) freqs"
    by (simp add: site_probs_def freqs_def Let_def)
  show ?thesis
    unfolding sp using pos S by (simp add: sum_list_divide_const)
qed

section \<open>The one-hot invariant\<close>

text \<open>
  C7. Every occurrence vector the program produces has at most one \<open>1\<close> in each
  position's block of \<open>q - 1\<close> entries: every row that \<open>seq2occurrence\<close> returns, every
  vector that \<open>sample_data_indip\<close> returns, and the state of the \<open>metropolis\<close> chain
  after any number of steps when the state it starts from has the property (the
  default start has it).
\<close>

theorem C7_one_hot_invariant:
  "(seq2occurrence seqs_AA q_true = Inr msa \<longrightarrow> list_all (one_hot_inv (q_true - 1)) msa)
   \<and> (sample_data_indip flds beta q raw = Inr v \<longrightarrow> one_hot_inv (q - 1) v)
   \<and> (one_hot_inv (q_true - 1) s \<and> metropolis_loop jcoupl p beta q_true g k s = Inr s_k
        \<longrightarrow> one_hot_inv (q_true - 1) s_k)
   \<and> (initial_state (length p) start_conf g = Inr (Some s0) \<and> one_hot_inv (q_true - 1) s0
        \<and> metropolis jcoupl p Nsteps beta q_true start_conf g = Inr (Returned_state s_N)
        \<longrightarrow> one_hot_inv (q_true - 1) s_N)
   \<and> (metropolis jcoupl p Nsteps beta q_true (PyFloat None) g = Inr (Returned_state s_D)
        \<longrightarrow> one_hot_inv (q_true - 1) s_D)"
proof (intro conjI impI)
  assume "seq2occurrence seqs_AA q_true = Inr msa"
  then show "list_all (one_hot_inv (q_true - 1)) msa" by (rule seq2occurrence_inv)
next
  assume "sample_data_indip flds beta q raw = Inr v"
  then show "one_hot_inv (q - 1) v" by (rule sample_data_indip_inv)
next
  assume "one_hot_inv (q_true - 1) s \<and> metropolis_loop jcoupl p beta q_true g k s = Inr s_k"
  then show "one_hot_inv (q_true - 1) s_k" using metropolis_loop_inv by blast
next
  assume a: "initial_state (length p) start_conf g = Inr (Some s0) \<and> one_hot_inv (q_true - 1) s0
        \<and> metropolis jcoupl p Nsteps beta q_true start_conf g = Inr (Returned_state s_N)"
  then have "metropolis_loop jcoupl p beta q_true g Nsteps s0 = Inr s_N"
    by (auto simp: metropolis_def bind_err_def split: sum.splits)
  then show "one_hot_inv (q_true - 1) s_N" using a metropolis_loop_inv by blast
next
  assume "metropolis jcoupl p Nsteps beta q_true (PyFloat None) g = Inr (Returned_state s_D)"
  then have "metropolis_loop jcoupl p beta q_true g Nsteps (replicate (length p) 0) = Inr s_D"
    by (auto simp: metropolis_def initial_state_default bind_err_def split: sum.splits)
  then show "one_hot_inv (q_true - 1) s_D"
    using metropolis_loop_inv [OF _ one_hot_inv_zeros] by blast
qed

theorem C7_one_hot_invariant_witness:
  "seq2occurrence (StrList [''AC'', ''AD'']) 4 = Inr [[0, 1, 0, 0, 0, 1], [0, 1, 0, 0, 0, 0]]
   \<and> list_all (one_hot_inv 3) [[0, 1, 0, 0, 0, 1], [0, 1, 0, 0, 0, 0 :: int]]
   \<and> sample_data_indip [0, 0, 0, 0] 1 3 (\<lambda>i. i + 2) = Inr [0, 0, 1, 0]
   \<and> one_hot_inv 2 [0, 0, 1, 0 :: real]
   \<and> metropolis_loop [[0]] [1 / 2] 1 2
        \<lparr>init_raw = (\<lambda>_. 0), pos_raw = (\<lambda>_. 0), sym_raw = (\<lambda>_. 0), unif = (\<lambda>_. 0)\<rparr> 1 [0]
       = Inr [1]
   \<and> metropolis [[0]] [1 / 2] 1 1 2 (IntArray Int32 [0])
        \<lparr>init_raw = (\<lambda>_. 0), pos_raw = (\<lambda>_. 0), sym_raw = (\<lambda>_. 0), unif = (\<lambda>_. 0)\<rparr>
       = Inr (Returned_state [1])
   \<and> metropolis [[0]] [1 / 2] 1 1 2 (PyFloat None)
        \<lparr>init_raw = (\<lambda>_. 0), pos_raw = (\<lambda>_. 0), sym_raw = (\<lambda>_. 0), unif = (\<lambda>_. 0)\<rparr>
       = Inr (Returned_state [1])
   \<and> one_hot_inv 1 [1 :: int]"
proof -
  let ?g = "\<lparr>init_raw = (\<lambda>_. 0), pos_raw = (\<lambda>_. 0), sym_raw = (\<lambda>_. 0), unif = (\<lambda>_. 0 :: real)\<rparr>"
  have e1: "seq2occurrence (StrList [''AC'', ''AD'']) 4
      = Inr [[0, 1, 0, 0, 0, 1], [0, 1, 0, 0, 0, 0]]"
    by code_simp
  have e2: "sample_data_indip [0, 0, 0, 0] 1 3 (\<lambda>i. i + 2) = Inr [0, 0, 1, 0]"
    by code_simp
  have e3: "metropolis_loop [[0]] [1 / 2] 1 2 ?g 1 [0] = Inr [1]"
    by (simp add: bind_err_def metropolis_step_def randint_def assign_slice_def slice_def
        t_1hot_def energy_diff_def np_dot_mv_def np_dot_def ncols_def dot_def matvec_def)
  have e4: "initial_state (length [1 / 2 :: real]) (IntArray Int32 [0]) ?g = Inr (Some [0])"
    by (simp add: initial_state_def bind_err_def)
  have e5: "metropolis [[0]] [1 / 2] 1 1 2 (IntArray Int32 [0]) ?g = Inr (Returned_state [1])"
    using e3 e4 by (simp add: metropolis_def bind_err_def)
  have e6: "metropolis [[0]] [1 / 2] 1 1 2 (PyFloat None) ?g = Inr (Returned_state [1])"
    using e3 by (simp add: metropolis_def bind_err_def initial_state_def randint_array_def)
  have z: "one_hot_inv (2 - 1) [0 :: int]" by (simp add: one_hot_inv_def block_def slice_def)
  note A = C7_one_hot_invariant [where seqs_AA = "StrList [''AC'', ''AD'']" and q_true = 4
      and msa = "[[0, 1, 0, 0, 0, 1], [0, 1, 0, 0, 0, 0]]" and flds = "[0, 0, 0, 0]"
      and beta = 1 and q = 3 and raw = "\<lambda>i. i + 2" and v = "[0, 0, 1, 0]"]
  note B = C7_one_hot_invariant [where q_true = 2 and s = "[0]" and jcoupl = "[[0]]"
      and p = "[1 / 2]" and beta = 1 and g = ?g and k = 1 and s_k = "[1]"
      and start_conf = "IntArray Int32 [0]" and s0 = "[0]" and Nsteps = 1 and s_N = "[1]"
      and s_D = "[1]"]
  have "list_all (one_hot_inv 3) [[0, 1, 0, 0, 0, 1], [0, 1, 0, 0, 0, 0 :: int]]"
    using A e1 by simp
  moreover have "one_hot_inv 2 [0, 0, 1, 0 :: real]" using A e2 by simp
  moreover have "one_hot_inv 1 [1 :: int]" using B e3 e4 e5 e6 z by simp
  ultimately show ?thesis using e1 e2 e3 e5 e6 by simp
qed

section \<open>The alphabet codec: round trip\<close>

lemma distinct_AAs: "distinct AAs"
  by (simp add: AAs_def)

lemma ntdict_nth: "k < length AAs \<Longrightarrow> ntdict (AAs ! k) = Some k"
  unfolding ntdict_def using map_of_zip_nth [of AAs "[0..<length AAs]" k] distinct_AAs by simp

lemma ntdict_symbol:
  assumes "c \<in> set AAs"
  shows "\<exists>k. ntdict c = Some k \<and> py_index AAs (int k) = Inr c"
proof -
  from assms obtain k where k: "k < length AAs" "AAs ! k = c"
    by (auto simp: in_set_conv_nth)
  then have "ntdict c = Some k" using ntdict_nth by blast
  moreover have "py_index AAs (int k) = Inr c" using k by (simp add: py_index_def Let_def)
  ultimately show ?thesis by blast
qed

lemma encode_decode:
  "set s \<subseteq> set AAs \<Longrightarrow> \<exists>r. encode s = Inr r \<and> decode r = Inr s \<and> length r = length s"
proof (induction s)
  case Nil
  then show ?case by simp
next
  case (Cons c s)
  then obtain r where r: "encode s = Inr r" "decode r = Inr s" "length r = length s" by auto
  from Cons.prems obtain k where k: "ntdict c = Some k" "py_index AAs (int k) = Inr c"
    using ntdict_symbol [of c] by auto
  show ?case using r k by (simp add: bind_err_def)
qed

text \<open>
  Row by row the codec is a round trip: for every sequence \<open>s\<close> over the 21-symbol
  alphabet, \<open>seq2num(s)\<close> is a two-dimensional array with one row, of the length of \<open>s\<close>,
  and decoding this row returns the sequence, \<open>num2seq(seq2num(s)[0]) == s\<close>.
\<close>

lemma decode_encoded_row:
  "set s \<subseteq> set AAs \<Longrightarrow>
   \<exists>r. seq2num (Str s) = Inr (Arr2 [r]) \<and> length r = length s \<and> num2seq (Arr1 r) = Inr s"
  using encode_decode [of s] by (auto simp: bind_err_def)

lemma decode_encoded_row_example:
  "seq2num (Str ''-ACDY'') = Inr (Arr2 [[0, 1, 2, 3, 20]])
   \<and> num2seq (Arr1 [0, 1, 2, 3, 20]) = Inr ''-ACDY''"
  by code_simp

text \<open>
  C6. The round trip \<open>num2seq(seq2num(s)) == s\<close>, which the docstring of \<open>num2seq\<close>
  (\<open>Inverse of seq2num.\<close>) promises, does not hold in the code: \<open>seq2num\<close> returns a
  two-dimensional array, and \<open>num2seq\<close> applied to it raises TypeError, here for the
  sequence \<open>ACD\<close>. It is so for every sequence over the alphabet, the empty one included.
\<close>

theorem C6_round_trip_raises:
  "bind_err (seq2num (Str ''ACD'')) num2seq = Inl TypeError"
  by code_simp

lemma round_trip_always_raises:
  "set s \<subseteq> set AAs \<Longrightarrow> bind_err (seq2num (Str s)) num2seq = Inl TypeError"
  using decode_encoded_row [of s] by (auto simp: bind_err_def)

section \<open>The independent-site fields\<close>

lemma length_fill_slice [simp]: "length (fill_slice lo hi v xs) = length xs"
  by (auto simp: fill_slice_def length_slice min_def)

lemma nth_fill_slice:
  "j < length xs \<Longrightarrow> fill_slice lo hi v xs ! j = (if lo \<le> j \<and> j < hi then v else xs ! j)"
  by (auto simp: fill_slice_def length_slice nth_append min_def)

lemma fold_fill_slice_nth:
  "j < length r \<Longrightarrow>
   fold (\<lambda>i fg. fill_slice (i * m) ((i + 1) * m) (c i) fg) [0..<n] r ! j
     = (if j < n * m then c (j div m) else r ! j)"
proof (induction n)
  case 0
  then show ?case by simp
next
  case (Suc n)
  let ?r = "fold (\<lambda>i fg. fill_slice (i * m) ((i + 1) * m) (c i) fg) [0..<n] r"
  have len: "length ?r = length r" by (rule length_fold_preserve) simp
  have IH: "?r ! j = (if j < n * m then c (j div m) else r ! j)" using Suc by simp
  have j: "j < length ?r" using len Suc.prems by simp
  have step: "fold (\<lambda>i fg. fill_slice (i * m) ((i + 1) * m) (c i) fg) [0..<Suc n] r ! j
      = (if n * m \<le> j \<and> j < n * m + m then c n else ?r ! j)"
    using nth_fill_slice [OF j, of "n * m" "n * m + m" "c n"] by (simp add: add.commute)
  show ?case
  proof (cases "n * m \<le> j \<and> j < n * m + m")
    case True
    then show ?thesis using step in_block_div [of n m j] by (simp add: add.commute)
  next
    case False
    then show ?thesis using step IH by (auto simp: add.commute)
  qed
qed

lemma slice_map: "slice lo hi (map g xs) = map g (slice lo hi xs)"
  by (simp add: slice_def take_map drop_map)

lemma sum_list_affine:
  fixes ys :: "real list"
  shows "sum_list (map (\<lambda>x. x * k + c) ys) = sum_list ys * k + real (length ys) * c"
  by (induction ys) (simp_all add: algebra_simps)

lemma gauge_frequency:
  fixes alpha :: real
  assumes "2 \<le> q" "length ys = q - 1"
  shows "1 - sum_list (map (\<lambda>f. f * (1 - alpha) + alpha / real q) ys)
       = (1 - alpha) * (1 - sum_list ys) + alpha / real q"
proof -
  have q: "real (q - 1) = real q - 1" "real q \<noteq> 0" using assms(1) by (simp_all add: of_nat_diff)
  have "real (q - 1) * (alpha / real q) = alpha - alpha / real q"
    using q by (simp add: field_simps)
  then show ?thesis
    unfolding sum_list_affine assms(2) by (simp add: algebra_simps)
qed

lemma indip_model_fields_nth:
  assumes q: "2 \<le> q" and i: "i < length freqs div (q - 1)" and a: "a < q - 1"
  shows "\<exists>h. indip_model_fields freqs alpha q = Inr h \<and> length h = length freqs \<and>
     h ! (i * (q - 1) + a)
       = np_log (np_divide (freqs ! (i * (q - 1) + a) * (1 - alpha) + alpha / real q)
           ((1 - alpha) * (1 - sum_list (block (q - 1) i freqs)) + alpha / real q))"
proof -
  define m where "m = q - 1"
  define pc where "pc = map (\<lambda>f. f * (1 - alpha) + alpha / real q) freqs"
  define c where "c = (\<lambda>i. 1 - sum_list (slice (i * m) ((i + 1) * m) pc))"
  define fg where "fg = fold (\<lambda>i fg. fill_slice (i * m) ((i + 1) * m) (c i) fg)
      [0..<length freqs div m] (replicate (length pc) 0)"
  define h where "h = map2 (\<lambda>x y. np_log (np_divide x y)) pc fg"
  have res: "indip_model_fields freqs alpha q = Inr h"
    using q by (simp add: indip_model_fields_def Let_def h_def fg_def c_def pc_def m_def)
  have lfg: "length fg = length freqs"
    unfolding fg_def by (rule trans [OF length_fold_preserve]) (simp_all add: pc_def)
  have lh: "length h = length freqs" by (simp add: h_def lfg pc_def)
  have im: "i < length freqs div m" "a < m" using i a by (simp_all add: m_def)
  have j: "i * m + a < length freqs" using block_bound [OF im(1)] im(2) by simp
  have jl: "i * m + a < (length freqs div m) * m"
    using block_lt [of i "length freqs div m" m] im by simp
  have fgj: "fg ! (i * m + a) = c i"
    unfolding fg_def using fold_fill_slice_nth [of "i * m + a" "replicate (length pc) 0" m c
        "length freqs div m"] j jl im(2)
    by (simp add: pc_def)
  have lb: "length (block m i freqs) = m" using im(1) by (rule length_block)
  have ci: "c i = (1 - alpha) * (1 - sum_list (block m i freqs)) + alpha / real q"
    unfolding c_def pc_def slice_map block_def [symmetric]
    using gauge_frequency [OF q, of "block m i freqs" alpha] lb by (simp add: m_def)
  have "h ! (i * m + a) = np_log (np_divide (pc ! (i * m + a)) (fg ! (i * m + a)))"
    using j lfg by (simp add: h_def pc_def)
  then have "h ! (i * m + a)
      = np_log (np_divide (freqs ! (i * m + a) * (1 - alpha) + alpha / real q)
          ((1 - alpha) * (1 - sum_list (block m i freqs)) + alpha / real q))"
    using j by (simp add: fgj ci pc_def)
  with res lh show ?thesis unfolding m_def by blast
qed

lemma indip_model_fields_length:
  assumes "2 \<le> q"
  shows "\<exists>h. indip_model_fields freqs alpha q = Inr h \<and> length h = length freqs"
proof -
  have "length (fold (\<lambda>i fg. fill_slice (i * (q - 1)) ((i + 1) * (q - 1))
          (1 - sum_list (slice (i * (q - 1)) ((i + 1) * (q - 1))
             (map (\<lambda>f. f * (1 - alpha) + alpha / real q) freqs))) fg)
        [0..<length freqs div (q - 1)] (replicate (length freqs) (0 :: real))) = length freqs"
    by (rule trans [OF length_fold_preserve]) simp_all
  then show ?thesis using assms by (simp add: indip_model_fields_def Let_def)
qed

lemma np_log_divide_pos:
  "0 < x \<Longrightarrow> 0 < y \<Longrightarrow> np_log (np_divide x y) = Fin (ln x - ln y)"
  by (simp add: np_divide_def ln_div)

text \<open>
  C3. For a gauge-fixed frequency vector (entries in \<open>[0, 1]\<close>, every position's block
  summing to at most \<open>1\<close>) and \<open>0 < \<alpha> < 1\<close>, \<open>indip_model_fields\<close> returns, for each position
  and each explicit symbol, \<open>log\<close> of the regularised frequency of the symbol minus \<open>log\<close>
  of the regularised frequency of the implicit symbol, where the regularisation
  \<open>(1 - \<alpha>) f + \<alpha> / q\<close> is applied to the implicit symbol's frequency \<open>1 - sum of the block\<close>
  as well. Proved for every \<open>q \<ge> 2\<close>, so for \<open>q = 21\<close>.
\<close>

theorem C3_indip_model_fields:
  assumes "2 \<le> q" and "0 < alpha" and "alpha < 1"
    and "\<forall>x\<in>set freqs. 0 \<le> x \<and> x \<le> 1"
    and "\<forall>i<length freqs div (q - 1). sum_list (block (q - 1) i freqs) \<le> 1"
  shows "\<exists>h. indip_model_fields freqs alpha q = Inr h \<and> length h = length freqs \<and>
     (\<forall>i<length freqs div (q - 1). \<forall>a<q - 1.
        h ! (i * (q - 1) + a)
          = Fin (ln ((1 - alpha) * freqs ! (i * (q - 1) + a) + alpha / real q)
                 - ln ((1 - alpha) * (1 - sum_list (block (q - 1) i freqs)) + alpha / real q)))"
proof -
  from indip_model_fields_length [OF assms(1)] obtain h where
    h: "indip_model_fields freqs alpha q = Inr h" "length h = length freqs" by blast
  have aq: "0 < alpha / real q" using assms(1,2) by simp
  have "\<forall>i<length freqs div (q - 1). \<forall>a<q - 1.
        h ! (i * (q - 1) + a)
          = Fin (ln ((1 - alpha) * freqs ! (i * (q - 1) + a) + alpha / real q)
                 - ln ((1 - alpha) * (1 - sum_list (block (q - 1) i freqs)) + alpha / real q))"
  proof (intro allI impI)
    fix i a assume i: "i < length freqs div (q - 1)" and a: "a < q - 1"
    have j: "i * (q - 1) + a < length freqs" using block_bound [OF i] a by simp
    then have "0 \<le> freqs ! (i * (q - 1) + a)" using assms(4) by simp
    then have "0 \<le> (1 - alpha) * freqs ! (i * (q - 1) + a)" using assms(3) by simp
    then have p1: "0 < freqs ! (i * (q - 1) + a) * (1 - alpha) + alpha / real q"
      using aq by (simp add: mult.commute add_nonneg_pos)
    have "0 \<le> 1 - sum_list (block (q - 1) i freqs)" using assms(5) i by simp
    then have "0 \<le> (1 - alpha) * (1 - sum_list (block (q - 1) i freqs))"
      using assms(3) by simp
    then have p2: "0 < (1 - alpha) * (1 - sum_list (block (q - 1) i freqs)) + alpha / real q"
      using aq by (simp add: add_nonneg_pos)
    from indip_model_fields_nth [OF assms(1) i a, of alpha] h(1)
    have "h ! (i * (q - 1) + a)
       = np_log (np_divide (freqs ! (i * (q - 1) + a) * (1 - alpha) + alpha / real q)
           ((1 - alpha) * (1 - sum_list (block (q - 1) i freqs)) + alpha / real q))"
      by auto
    then show "h ! (i * (q - 1) + a)
          = Fin (ln ((1 - alpha) * freqs ! (i * (q - 1) + a) + alpha / real q)
                 - ln ((1 - alpha) * (1 - sum_list (block (q - 1) i freqs)) + alpha / real q))"
      using np_log_divide_pos [OF p1 p2] by (simp add: mult.commute)
  qed
  with h show ?thesis by blast
qed

theorem C3_indip_model_fields_witness:
  "\<exists>h. indip_model_fields [1 / 2, 1 / 4] (1 / 2) 3 = Inr h \<and> length h = 2 \<and>
     h ! 0 = Fin (ln (5 / 12) - ln (7 / 24)) \<and> h ! 1 = Fin (ln (7 / 24) - ln (7 / 24))"
proof -
  have v: "\<forall>x\<in>set [1 / 2, 1 / 4 :: real]. 0 \<le> x \<and> x \<le> 1" by simp
  have b: "block 2 0 [1 / 2, 1 / 4 :: real] = [1 / 2, 1 / 4]" by (simp add: block_def slice_def)
  have s: "\<forall>i<length [1 / 2, 1 / 4 :: real] div (3 - 1). sum_list (block (3 - 1) i [1 / 2, 1 / 4 :: real]) \<le> 1"
    using b by simp
  from C3_indip_model_fields [of 3 "1 / 2" "[1 / 2, 1 / 4]", OF _ _ _ v s]
  obtain h where h: "indip_model_fields [1 / 2, 1 / 4] (1 / 2) 3 = Inr h" "length h = 2"
    and n: "\<forall>i<length [1 / 2, 1 / 4 :: real] div (3 - 1). \<forall>a<3 - 1.
        h ! (i * (3 - 1) + a)
          = Fin (ln ((1 - 1 / 2) * [1 / 2, 1 / 4] ! (i * (3 - 1) + a) + 1 / 2 / real 3)
                 - ln ((1 - 1 / 2) * (1 - sum_list (block (3 - 1) i [1 / 2, 1 / 4])) + 1 / 2 / real 3))"
    by auto
  from n [rule_format, of 0 0] n [rule_format, of 0 1] b
  have "h ! 0 = Fin (ln (5 / 12) - ln (7 / 24))" "h ! 1 = Fin (ln (7 / 24) - ln (7 / 24))"
    by simp_all
  with h show ?thesis by blast
qed

section \<open>The independent-site fields without pseudo-counts\<close>

lemma member_le_sum_list_real:
  fixes xs :: "real list"
  shows "\<forall>x\<in>set xs. 0 \<le> x \<Longrightarrow> y \<in> set xs \<Longrightarrow> y \<le> sum_list xs"
proof (induction xs)
  case Nil
  then show ?case by simp
next
  case (Cons x xs)
  have "0 \<le> sum_list xs" using Cons.prems(1) by (simp add: sum_list_nonneg)
  then show ?case using Cons by auto
qed

lemma not_finite_log_zero: "\<not> is_finite (np_log (np_divide 0 y))"
  by (simp add: np_divide_def)

lemma not_finite_log_div_zero: "0 \<le> x \<Longrightarrow> \<not> is_finite (np_log (np_divide x 0))"
  by (simp add: np_divide_def)

text \<open>
  C8 (as amended). With \<open>\<alpha> = 0\<close>, \<open>indip_model_fields\<close> raises no error. For a valid
  frequency vector it returns a vector in which the field of every explicit symbol whose
  frequency is exactly \<open>0\<close> or exactly \<open>1\<close> is not finite (an infinity or NaN).
\<close>

theorem C8_zero_alpha_not_finite:
  assumes "2 \<le> q" and "\<forall>x\<in>set freqs. 0 \<le> x"
    and "\<forall>i<length freqs div (q - 1). sum_list (block (q - 1) i freqs) \<le> 1"
    and "i < length freqs div (q - 1)" and "a < q - 1"
    and "freqs ! (i * (q - 1) + a) = 0 \<or> freqs ! (i * (q - 1) + a) = 1"
  shows "\<exists>h. indip_model_fields freqs 0 q = Inr h \<and> length h = length freqs \<and>
           \<not> is_finite (h ! (i * (q - 1) + a))"
proof -
  let ?x = "freqs ! (i * (q - 1) + a)"
  let ?S = "sum_list (block (q - 1) i freqs)"
  from indip_model_fields_nth [OF assms(1,4,5), of 0] obtain h where
    h: "indip_model_fields freqs 0 q = Inr h" "length h = length freqs"
    and n: "h ! (i * (q - 1) + a) = np_log (np_divide ?x (1 - ?S))"
    by auto
  have j: "i * (q - 1) + a < length freqs" using block_bound [OF assms(4)] assms(5) by simp
  then have x0: "0 \<le> ?x" using assms(2) by simp
  have blk: "\<forall>y\<in>set (block (q - 1) i freqs). 0 \<le> y"
    using assms(2) by (auto simp: block_def slice_def dest: in_set_takeD in_set_dropD)
  have "?x \<in> set (block (q - 1) i freqs)"
    using nth_block [OF assms(4,5)] length_block [OF assms(4)] assms(5)
    by (metis nth_mem)
  then have xS: "?x \<le> ?S" using blk by (simp add: member_le_sum_list_real)
  have S1: "?S \<le> 1" using assms(3,4) by simp
  have "?x = 0 \<or> ?S = 1" using assms(6) xS S1 by auto
  then have "\<not> is_finite (np_log (np_divide ?x (1 - ?S)))"
    using not_finite_log_zero not_finite_log_div_zero [OF x0] by auto
  with h n show ?thesis by auto
qed

theorem C8_zero_alpha_not_finite_witness:
  "\<exists>h. indip_model_fields [0, 1 / 2] 0 3 = Inr h \<and> length h = 2 \<and> \<not> is_finite (h ! 0)"
proof -
  have v: "\<forall>x\<in>set [0, 1 / 2 :: real]. 0 \<le> x" by simp
  have b: "block 2 0 [0, 1 / 2 :: real] = [0, 1 / 2]" by (simp add: block_def slice_def)
  have s: "\<forall>i<length [0, 1 / 2 :: real] div (3 - 1). sum_list (block (3 - 1) i [0, 1 / 2 :: real]) \<le> 1"
    using b by simp
  from C8_zero_alpha_not_finite [of 3 "[0, 1 / 2]" 0 0, OF _ v s]
  show ?thesis by (simp add: numeral_2_eq_2)
qed

text \<open>
  C8 as the specification states it fails: no error is signalled. With \<open>\<alpha> = 0\<close> the
  function returns \<open>-inf\<close> for a frequency \<open>0\<close>, and \<open>+inf\<close> (with NaN for the other symbols
  of the position) for a frequency \<open>1\<close>.
\<close>

theorem C8_no_error_counterexample:
  "indip_model_fields [0, 1 / 2, 0, 0, 0, 0, 0, 0, 0, 0, 0, 0, 0, 0, 0, 0, 0, 0, 0, 0] 0 21
     = Inr [MInf, Fin 0, MInf, MInf, MInf, MInf, MInf, MInf, MInf, MInf, MInf, MInf, MInf, MInf, MInf, MInf, MInf, MInf, MInf, MInf]
   \<and> indip_model_fields [1, 0, 0, 0, 0, 0, 0, 0, 0, 0, 0, 0, 0, 0, 0, 0, 0, 0, 0, 0] 0 21
     = Inr [PInf, NaN, NaN, NaN, NaN, NaN, NaN, NaN, NaN, NaN, NaN, NaN, NaN, NaN, NaN, NaN, NaN, NaN, NaN, NaN]"
  by (simp add: indip_model_fields_def fill_slice_def slice_def np_divide_def)

section \<open>The repaired diagonal blocks\<close>

lemma fold_err_append:
  "fold_err f (xs @ ys) s = bind_err (fold_err f xs s) (fold_err f ys)"
  by (induction xs arbitrary: s) (auto simp: bind_err_def split: sum.splits)

lemma fold_err_inv:
  assumes step: "\<And>k s. k < n \<Longrightarrow> Q k s \<Longrightarrow> \<exists>s'. f k s = Inr s' \<and> Q (Suc k) s'"
    and init: "Q 0 s"
  shows "\<exists>s'. fold_err f [0..<n] s = Inr s' \<and> Q n s'"
  using step
proof (induction n)
  case 0
  then show ?case using init by simp
next
  case (Suc n)
  then obtain s1 where s1: "fold_err f [0..<n] s = Inr s1" "Q n s1" by fastforce
  from Suc.prems [OF _ s1(2)] obtain s2 where "f n s1 = Inr s2" "Q (Suc n) s2" by auto
  then show ?case using s1 by (simp add: fold_err_append bind_err_def)
qed

lemma zero_block_props:
  assumes M: "is_matrix n n M" and hi: "hi \<le> n" and lo: "lo \<le> hi"
  shows "is_matrix n n (zero_block lo hi M)"
    and "\<And>r c. r < n \<Longrightarrow> c < n \<Longrightarrow>
      zero_block lo hi M ! r ! c = (if lo \<le> r \<and> r < hi \<and> lo \<le> c \<and> c < hi then 0 else M ! r ! c)"
proof -
  have lM: "length M = n" using M by (simp add: is_matrix_def)
  have k: "length (slice lo hi M) = hi - lo" using hi lM by (simp add: length_slice)
  define B where "B = map (fill_slice lo hi 0) (slice lo hi M)"
  have lB: "length B = hi - lo" by (simp add: B_def k)
  have zb: "zero_block lo hi M = take lo M @ B @ drop (lo + (hi - lo)) M"
    by (simp add: zero_block_def B_def k)
  have fit: "lo + (hi - lo) \<le> length M" using hi lo lM by simp
  have rows: "\<And>r. r < n \<Longrightarrow> zero_block lo hi M ! r
      = (if lo \<le> r \<and> r < hi then fill_slice lo hi 0 (M ! r) else M ! r)"
  proof -
    fix r assume r: "r < n"
    then have "zero_block lo hi M ! r
        = (if r < lo then M ! r else if r < lo + (hi - lo) then B ! (r - lo) else M ! r)"
      unfolding zb using nth_replace_block [OF fit lB, of r] lM by simp
    moreover have "lo \<le> r \<Longrightarrow> r < hi \<Longrightarrow> B ! (r - lo) = fill_slice lo hi 0 (M ! r)"
      using hi lM k by (simp add: B_def nth_slice)
    ultimately show "zero_block lo hi M ! r
      = (if lo \<le> r \<and> r < hi then fill_slice lo hi 0 (M ! r) else M ! r)"
      using lo by auto
  qed
  have len: "length (zero_block lo hi M) = n" unfolding zb using fit lB lM by simp
  show "is_matrix n n (zero_block lo hi M)"
    unfolding is_matrix_def list_all_length
    using len rows is_matrix_row [OF M] by simp
  show "\<And>r c. r < n \<Longrightarrow> c < n \<Longrightarrow>
      zero_block lo hi M ! r ! c = (if lo \<le> r \<and> r < hi \<and> lo \<le> c \<and> c < hi then 0 else M ! r ! c)"
    using rows is_matrix_row [OF M] by (simp add: nth_fill_slice)
qed

lemma set_entry_props:
  assumes M: "is_matrix n n M" and r: "r < n" and c: "c < n"
  shows "\<exists>M'. set_entry r c v M = Inr M' \<and> is_matrix n n M' \<and>
     (\<forall>r'<n. \<forall>c'<n. M' ! r' ! c' = (if r' = r \<and> c' = c then v else M ! r' ! c'))"
proof -
  have lM: "length M = n" using M by (simp add: is_matrix_def)
  have nc: "ncols M = n" using M by (rule ncols_square)
  define M' where "M' = M[r := (M ! r)[c := v]]"
  have res: "set_entry r c v M = Inr M'" using r c lM nc by (simp add: set_entry_def M'_def)
  have rows: "\<And>r'. r' < n \<Longrightarrow> M' ! r' = (if r' = r then (M ! r)[c := v] else M ! r')"
    using lM by (simp add: M'_def nth_update_any)
  have "is_matrix n n M'"
    unfolding is_matrix_def list_all_length
    using rows is_matrix_row [OF M] lM by (simp add: M'_def)
  moreover have "\<forall>r'<n. \<forall>c'<n. M' ! r' ! c' = (if r' = r \<and> c' = c then v else M ! r' ! c')"
    using rows is_matrix_row [OF M] by (auto simp: nth_update_any)
  ultimately show ?thesis using res by blast
qed

lemma set_diagonal_props:
  assumes M: "is_matrix n n M" and fit: "base + m \<le> n"
  shows "\<exists>M'. fold_err (\<lambda>a. set_entry (base + a) (base + a) (v a)) [0..<m] M = Inr M' \<and>
     is_matrix n n M' \<and>
     (\<forall>r<n. \<forall>c<n. M' ! r ! c
        = (if r = c \<and> base \<le> r \<and> r < base + m then v (r - base) else M ! r ! c))"
proof (rule fold_err_inv [where Q = "\<lambda>k M'. is_matrix n n M' \<and>
     (\<forall>r<n. \<forall>c<n. M' ! r ! c
        = (if r = c \<and> base \<le> r \<and> r < base + k then v (r - base) else M ! r ! c))"])
  show "is_matrix n n M \<and>
     (\<forall>r<n. \<forall>c<n. M ! r ! c
        = (if r = c \<and> base \<le> r \<and> r < base + 0 then v (r - base) else M ! r ! c))"
    using M by simp
next
  fix k s
  assume k: "k < m" and Q: "is_matrix n n s \<and>
     (\<forall>r<n. \<forall>c<n. s ! r ! c
        = (if r = c \<and> base \<le> r \<and> r < base + k then v (r - base) else M ! r ! c))"
  have bk: "base + k < n" using k fit by simp
  from set_entry_props [OF conjunct1 [OF Q] bk bk, of "v k"] obtain s' where
    s': "set_entry (base + k) (base + k) (v k) s = Inr s'" "is_matrix n n s'"
    "\<forall>r'<n. \<forall>c'<n. s' ! r' ! c' = (if r' = base + k \<and> c' = base + k then v k else s ! r' ! c')"
    by blast
  have "\<forall>r<n. \<forall>c<n. s' ! r ! c
        = (if r = c \<and> base \<le> r \<and> r < base + Suc k then v (r - base) else M ! r ! c)"
    using s'(3) Q by (auto simp: less_Suc_eq)
  then show "\<exists>s'. set_entry (base + k) (base + k) (v k) s = Inr s' \<and> (is_matrix n n s' \<and>
     (\<forall>r<n. \<forall>c<n. s' ! r ! c
        = (if r = c \<and> base \<le> r \<and> r < base + Suc k then v (r - base) else M ! r ! c)))"
    using s' by blast
qed

lemma repair_blocks_props:
  assumes M: "is_matrix n n M" and N: "N * m \<le> n"
  shows "\<exists>M'. fold_err (\<lambda>i c. fold_err (\<lambda>a. set_entry (i * m + a) (i * m + a) (fp ! (i * m + a)))
                     [0..<m] (zero_block (i * m) ((i + 1) * m) c)) [0..<N] M = Inr M' \<and>
     is_matrix n n M' \<and>
     (\<forall>i<N. \<forall>a<m. \<forall>b<m. M' ! (i * m + a) ! (i * m + b) = (if a = b then fp ! (i * m + a) else 0))"
proof (rule fold_err_inv [where Q = "\<lambda>k M'. is_matrix n n M' \<and>
     (\<forall>i<k. \<forall>a<m. \<forall>b<m. M' ! (i * m + a) ! (i * m + b) = (if a = b then fp ! (i * m + a) else 0))"])
  show "is_matrix n n M \<and>
     (\<forall>i<0. \<forall>a<m. \<forall>b<m. M ! (i * m + a) ! (i * m + b) = (if a = b then fp ! (i * m + a) else 0))"
    using M by simp
next
  fix k s
  assume k: "k < N" and Q: "is_matrix n n s \<and>
     (\<forall>i<k. \<forall>a<m. \<forall>b<m. s ! (i * m + a) ! (i * m + b) = (if a = b then fp ! (i * m + a) else 0))"
  define Z where "Z = zero_block (k * m) ((k + 1) * m) s"
  have hi: "(k + 1) * m \<le> n" using block_lt [OF k, of m] N by simp
  have fit: "k * m + m \<le> n" using hi by simp
  have lo: "k * m \<le> (k + 1) * m" by simp
  note zb = zero_block_props [OF conjunct1 [OF Q] hi lo, folded Z_def]
  from set_diagonal_props [OF zb(1) fit, of "\<lambda>a. fp ! (k * m + a)"] obtain s' where
    s': "fold_err (\<lambda>a. set_entry (k * m + a) (k * m + a) (fp ! (k * m + a))) [0..<m] Z = Inr s'"
      "is_matrix n n s'"
    and e: "\<forall>r<n. \<forall>c<n. s' ! r ! c
        = (if r = c \<and> k * m \<le> r \<and> r < k * m + m then fp ! (k * m + (r - k * m)) else Z ! r ! c)"
    by blast
  have new: "\<forall>i<Suc k. \<forall>a<m. \<forall>b<m.
      s' ! (i * m + a) ! (i * m + b) = (if a = b then fp ! (i * m + a) else 0)"
  proof (intro allI impI)
    fix i a b assume i: "i < Suc k" and a: "a < m" and b: "b < m"
    show "s' ! (i * m + a) ! (i * m + b) = (if a = b then fp ! (i * m + a) else 0)"
    proof (cases "i = k")
      case True
      have ra: "k * m + a < n" "k * m + b < n" using fit a b by simp_all
      show ?thesis using e [rule_format, OF ra] zb(2) [OF ra] a b True by auto
    next
      case False
      then have ik: "i < k" using i by simp
      then have lt: "i * m + a < k * m" "i * m + b < k * m"
        using block_lt [OF ik, of m] a b by simp_all
      then have ra: "i * m + a < n" "i * m + b < n" using fit by simp_all
      have "s' ! (i * m + a) ! (i * m + b) = s ! (i * m + a) ! (i * m + b)"
        using e [rule_format, OF ra] zb(2) [OF ra] lt by simp
      then show ?thesis using Q ik a b by simp
    qed
  qed
  show "\<exists>s'. fold_err (\<lambda>a. set_entry (k * m + a) (k * m + a) (fp ! (k * m + a))) [0..<m]
              (zero_block (k * m) ((k + 1) * m) s) = Inr s' \<and>
     (is_matrix n n s' \<and> (\<forall>i<Suc k. \<forall>a<m. \<forall>b<m.
        s' ! (i * m + a) ! (i * m + b) = (if a = b then fp ! (i * m + a) else 0)))"
    using s' new unfolding Z_def by blast
qed

text \<open>
  C4. For an \<open>n \<times> n\<close> correlation matrix and a frequency vector of length \<open>n\<close>, the matrix
  that \<open>add_pseudocounts\<close> returns has, in the \<open>(q - 1) \<times> (q - 1)\<close> diagonal block of each
  position, every off-diagonal entry \<open>0\<close> and every diagonal entry equal to the
  regularised frequency \<open>(1 - \<alpha>) f + \<alpha> / q\<close> of the symbol, which is also the entry
  of the returned frequency vector. Proved for every \<open>\<alpha>\<close> and every \<open>q \<ge> 2\<close>.
\<close>

theorem C4_add_pseudocounts_diagonal_blocks:
  assumes "2 \<le> q_true" and "is_matrix n n corr_mat" and "length freqs = n"
  shows "\<exists>c_pseudo.
     add_pseudocounts corr_mat freqs alpha q_true
       = Inr (map (\<lambda>f. (1 - alpha) * f + alpha / real q_true) freqs, c_pseudo) \<and>
     is_matrix n n c_pseudo \<and>
     (\<forall>i<n div (q_true - 1). \<forall>a<q_true - 1. \<forall>b<q_true - 1.
        c_pseudo ! (i * (q_true - 1) + a) ! (i * (q_true - 1) + b)
          = (if a = b then (1 - alpha) * freqs ! (i * (q_true - 1) + a) + alpha / real q_true
             else 0))"
proof -
  define m where "m = q_true - 1"
  define fp where "fp = map (\<lambda>f. (1 - alpha) * f + alpha / real q_true) freqs"
  define c0 where "c0 = map (map (\<lambda>c. (1 - alpha) * c + alpha / (real q_true)\<^sup>2)) corr_mat"
  have M0: "is_matrix n n c0"
    using assms(2) by (simp add: c0_def is_matrix_def list_all_length)
  have N: "(n div m) * m \<le> n" by simp
  from repair_blocks_props [OF M0 N, of fp] obtain cp where
    cp: "fold_err (\<lambda>i c. fold_err (\<lambda>a. set_entry (i * m + a) (i * m + a) (fp ! (i * m + a)))
                     [0..<m] (zero_block (i * m) ((i + 1) * m) c)) [0..<n div m] c0 = Inr cp"
      "is_matrix n n cp"
    and e: "\<forall>i<n div m. \<forall>a<m. \<forall>b<m.
        cp ! (i * m + a) ! (i * m + b) = (if a = b then fp ! (i * m + a) else 0)"
    by blast
  have res: "add_pseudocounts corr_mat freqs alpha q_true = Inr (fp, cp)"
    using assms(1,3) cp(1)
    by (simp add: add_pseudocounts_def Let_def bind_err_def m_def fp_def c0_def)
  have "\<forall>i<n div m. \<forall>a<m. \<forall>b<m.
        cp ! (i * m + a) ! (i * m + b)
          = (if a = b then (1 - alpha) * freqs ! (i * m + a) + alpha / real q_true else 0)"
  proof (intro allI impI)
    fix i a b assume i: "i < n div m" and a: "a < m" and b: "b < m"
    have "i * m + a < length freqs" using block_bound [OF i] a assms(3) by simp
    then have "fp ! (i * m + a) = (1 - alpha) * freqs ! (i * m + a) + alpha / real q_true"
      by (simp add: fp_def)
    then show "cp ! (i * m + a) ! (i * m + b)
          = (if a = b then (1 - alpha) * freqs ! (i * m + a) + alpha / real q_true else 0)"
      using e i a b by auto
  qed
  then show ?thesis using res cp(2) unfolding m_def fp_def by blast
qed

theorem C4_add_pseudocounts_diagonal_blocks_witness:
  "\<exists>c_pseudo.
     add_pseudocounts [[1 / 2, 1 / 4], [1 / 4, 1 / 2]] [1 / 2, 1 / 4] (1 / 2) 3
       = Inr ([5 / 12, 7 / 24], c_pseudo) \<and>
     c_pseudo ! 0 ! 0 = 5 / 12 \<and> c_pseudo ! 0 ! 1 = 0 \<and>
     c_pseudo ! 1 ! 0 = 0 \<and> c_pseudo ! 1 ! 1 = 7 / 24"
proof -
  have M: "is_matrix 2 2 [[1 / 2, 1 / 4], [1 / 4, 1 / 2 :: real]]" by (simp add: is_matrix_def)
  from C4_add_pseudocounts_diagonal_blocks [of 3 2 "[[1 / 2, 1 / 4], [1 / 4, 1 / 2]]"
      "[1 / 2, 1 / 4]" "1 / 2", OF _ M]
  obtain cp where r: "add_pseudocounts [[1 / 2, 1 / 4], [1 / 4, 1 / 2]] [1 / 2, 1 / 4] (1 / 2) 3
       = Inr ([5 / 12, 7 / 24], cp)"
    and e: "\<forall>i<2 div (3 - 1). \<forall>a<3 - 1. \<forall>b<3 - 1.
        cp ! (i * (3 - 1) + a) ! (i * (3 - 1) + b)
          = (if a = b then (1 - 1 / 2) * [1 / 2, 1 / 4] ! (i * (3 - 1) + a) + 1 / 2 / real 3 else 0)"
    by auto
  from e [rule_format, of 0 0 0] e [rule_format, of 0 0 1] e [rule_format, of 0 1 0]
    e [rule_format, of 0 1 1]
  have "cp ! 0 ! 0 = 5 / 12" "cp ! 0 ! 1 = 0" "cp ! 1 ! 0 = 0" "cp ! 1 ! 1 = 7 / 24"
    by simp_all
  with r show ?thesis by blast
qed

section \<open>Conservation: value and bounds\<close>

text \<open>
  The rounding: \<open>binade\<close> is the exponent of its argument, and \<open>fl64\<close> is off by at
  most half the spacing of the floats there.
\<close>

lemma round_half_even_error: "\<bar>real_of_int (round_half_even y) - y\<bar> \<le> 1 / 2"
  unfolding round_half_even_def Let_def by (auto simp: abs_if) linarith+

lemma pow2_pos: "0 < pow2 e"
  by (simp add: pow2_def)

lemma pow2_Suc: "pow2 (e + 1) = 2 * pow2 e"
proof (cases "0 \<le> e")
  case True
  then show ?thesis by (simp add: pow2_def nat_add_distrib)
next
  case False
  then have "nat (- e) = Suc (nat (- e - 1))" by simp
  then show ?thesis using False by (simp add: pow2_def)
qed

lemma bitlen_pos: "0 < n \<Longrightarrow> 0 < bitlen n"
  using bitlen_eq_zero_iff [of n] bitlen_nonneg [of n] by linarith

lemma binade_bounds:
  assumes "0 < x"
  shows "pow2 (binade x) \<le> x \<and> x < pow2 (binade x + 1)"
proof (cases "1 \<le> x")
  case True
  define n where "n = \<lfloor>x\<rfloor>"
  have n: "0 < n" using True by (simp add: n_def)
  from bitlen_bounds [OF n] have b: "2 ^ nat (bitlen n - 1) \<le> n" "n < 2 ^ nat (bitlen n)" by simp_all
  have e: "0 \<le> bitlen n - 1" using n bitlen_pos [of n] by simp
  have "real_of_int (2 ^ nat (bitlen n - 1)) \<le> real_of_int n" using b(1) by linarith
  then have lo: "2 ^ nat (bitlen n - 1) \<le> x" unfolding n_def by (simp add: le_floor_iff)
  have "n + 1 \<le> 2 ^ nat (bitlen n)" using b(2) by simp
  then have "real_of_int (n + 1) \<le> real_of_int (2 ^ nat (bitlen n))" by linarith
  moreover have "x < real_of_int (n + 1)" unfolding n_def by linarith
  ultimately have hi: "x < 2 ^ nat (bitlen n)" by simp
  have "nat (bitlen n) = Suc (nat (bitlen n - 1))" using n bitlen_pos [of n] by simp
  then have hi': "x < 2 * 2 ^ nat (bitlen n - 1)" using hi by simp
  show ?thesis
    using True lo hi' e unfolding pow2_Suc
    by (simp add: binade_def n_def [symmetric] pow2_def)
next
  case False
  define n where "n = \<lfloor>1 / x\<rfloor>"
  define k where "k = bitlen n - 1"
  have y1: "1 < 1 / x" using False assms by simp
  have n: "0 < n" using y1 by (simp add: n_def)
  from bitlen_bounds [OF n] have b: "2 ^ nat k \<le> n" "n < 2 ^ nat (bitlen n)"
    by (simp_all add: k_def)
  have k0: "0 \<le> k" using n bitlen_pos [of n] by (simp add: k_def)
  have "real_of_int (2 ^ nat k) \<le> real_of_int n" using b(1) by linarith
  then have "2 ^ nat k \<le> 1 / x" unfolding n_def by (simp add: le_floor_iff)
  then have up: "x * 2 ^ nat k \<le> 1" using assms by (simp add: field_simps)
  have "nat (bitlen n) = Suc (nat k)" using n bitlen_pos [of n] by (simp add: k_def)
  then have "n + 1 \<le> 2 * 2 ^ nat k" using b(2) by simp
  then have "real_of_int (n + 1) \<le> real_of_int (2 * 2 ^ nat k)" by linarith
  moreover have "1 / x < real_of_int (n + 1)" unfolding n_def by linarith
  ultimately have "1 / x < 2 * 2 ^ nat k" by simp
  then have lo: "1 < x * (2 * 2 ^ nat k)" using assms by (simp add: field_simps)
  have pk: "pow2 k = 2 ^ nat k" using k0 by (simp add: pow2_def)
  have pmk: "pow2 (- k) = 1 / 2 ^ nat k" using k0 by (cases "k = 0") (simp_all add: pow2_def)
  have pmk1: "pow2 (- k - 1) = 1 / (2 * 2 ^ nat k)"
    using pow2_Suc [of "- k - 1"] pmk by simp
  show ?thesis
  proof (cases "x * pow2 k = 1")
    case True
    then have bx: "binade x = - k" using False by (simp add: binade_def n_def [symmetric] k_def [symmetric])
    have "x = 1 / 2 ^ nat k" using True pk by (simp add: field_simps)
    then show ?thesis unfolding bx pow2_Suc pmk using assms by (simp add: divide_strict_right_mono)
  next
    case ne: False
    then have bx: "binade x = - k - 1" using False by (simp add: binade_def n_def [symmetric] k_def [symmetric])
    have "x * 2 ^ nat k < 1" using up ne pk by simp
    then have "x < 1 / 2 ^ nat k" by (simp add: field_simps)
    moreover have "1 / (2 * 2 ^ nat k) < x" using lo by (simp add: field_simps)
    moreover have "pow2 (- k - 1 + 1) = pow2 (- k)" by simp
    ultimately show ?thesis unfolding bx pmk1 using pmk by simp
  qed
qed

lemma fl64_error: "\<bar>fl64 x - x\<bar> \<le> pow2 (max (binade \<bar>x\<bar>) (- 1022) - 52) / 2"
proof (cases "x = 0")
  case True
  then show ?thesis using pow2_pos [of "max (binade \<bar>x\<bar>) (- 1022) - 52"] by (simp add: fl64_def)
next
  case False
  define u where "u = pow2 (max (binade \<bar>x\<bar>) (- 1022) - 52)"
  define m where "m = real_of_int (round_half_even (\<bar>x\<bar> / u))"
  have u: "0 < u" unfolding u_def by (rule pow2_pos)
  have fx: "fl64 x = sgn x * m * u" using False by (simp add: fl64_def Let_def u_def m_def)
  have "x = sgn x * (\<bar>x\<bar> / u) * u" using u by (simp add: sgn_if)
  then have "fl64 x - x = sgn x * (m - \<bar>x\<bar> / u) * u" unfolding fx by (simp add: algebra_simps)
  then have "\<bar>fl64 x - x\<bar> = \<bar>m - \<bar>x\<bar> / u\<bar> * u"
    using False u by (simp add: abs_mult abs_sgn_eq)
  also have "\<dots> \<le> (1 / 2) * u"
    using round_half_even_error [of "\<bar>x\<bar> / u"] u unfolding m_def
    by (intro mult_right_mono) simp_all
  finally show ?thesis by (simp add: u_def)
qed

lemma sum_filter_xlog2:
  "(\<Sum>x\<leftarrow>filter (\<lambda>x. x \<noteq> 0) f. x * log 2 x) = (\<Sum>x\<leftarrow>f. xlog2 x)"
  by (induction f) (simp_all add: xlog2_def)

lemma conservation_row_value:
  assumes "\<forall>x\<in>set f. 0 \<le> x" and "0 \<le> np_sub 1 (np_sum f)"
  shows "conservation_row q f = Fin (conservation_value q (f @ [np_sub 1 (np_sum f)]))"
proof -
  have nn: "\<not> list_ex (\<lambda>x. x < 0) (filter (\<lambda>x. x \<noteq> 0) f)"
    using assms(1) by (auto simp: list_ex_iff)
  have lf: "\<not> np_sub 1 (np_sum f) < 0" using assms(2) by simp
  show ?thesis
    using nn lf
    by (simp add: conservation_row_def Let_def nan_guard_def conservation_value_def
        sum_filter_xlog2 xlog2_def)
qed

text \<open>
  In exact arithmetic the conservation of the \<open>q\<close> symbol frequencies of a position
  (non-negative, of sum \<open>1\<close>) lies in \<open>[0, log2(q)]\<close>; it is \<open>log2(q)\<close> where every
  frequency is \<open>0\<close> or \<open>1\<close>, and \<open>0\<close> where every frequency is \<open>1/q\<close>.
\<close>

lemma xlog2_nonpos: "0 \<le> x \<Longrightarrow> x \<le> 1 \<Longrightarrow> xlog2 x \<le> 0"
proof -
  assume a: "0 \<le> x" "x \<le> 1"
  show ?thesis
  proof (cases "x = 0")
    case True
    then show ?thesis by (simp add: xlog2_def)
  next
    case False
    then have "0 < x" using a by simp
    then have "log 2 x \<le> 0" using a(2) by simp
    then have "x * log 2 x \<le> 0" using a(1) by (simp add: mult_nonneg_nonpos)
    then show ?thesis using False by (simp add: xlog2_def)
  qed
qed

lemma xlog2_lower:
  assumes q: "0 < q" and x: "0 \<le> x"
  shows "x * (1 / ln 2 - log 2 (real q)) + (- (1 / real q) / ln 2) \<le> xlog2 x"
proof (cases "x = 0")
  case True
  have "0 \<le> 1 / real q / ln 2" using q by simp
  then show ?thesis using True by (simp add: xlog2_def)
next
  case False
  then have xp: "0 < x" using x by simp
  have qp: "0 < real q" using q by simp
  have l2: "0 < ln (2 :: real)" by simp
  have y: "0 < 1 / (real q * x)" using xp qp by simp
  have "ln (1 / (real q * x)) \<le> 1 / (real q * x) - 1" using y by (rule ln_le_minus_one)
  then have "- ln (real q * x) \<le> 1 / (real q * x) - 1"
    using xp qp by (simp add: ln_div)
  then have "x * (- ln (real q * x)) \<le> x * (1 / (real q * x) - 1)"
    by (rule mult_left_mono) (rule x)
  also have "x * (1 / (real q * x) - 1) = 1 / real q - x"
    using xp qp by (simp add: field_simps)
  finally have "x - 1 / real q \<le> x * ln (real q * x)" by simp
  also have "ln (real q * x) = ln (real q) + ln x" using xp qp by (simp add: ln_mult)
  finally have "x - 1 / real q - x * ln (real q) \<le> x * ln x" by (simp add: algebra_simps)
  then have "(x - 1 / real q - x * ln (real q)) / ln 2 \<le> x * ln x / ln 2"
    using l2 by (simp add: divide_right_mono)
  then show ?thesis using False by (simp add: xlog2_def log_def field_simps)
qed

lemma conservation_bounds:
  assumes q: "0 < q" and len: "length ps = q" and nn: "\<forall>x\<in>set ps. 0 \<le> x"
    and one: "sum_list ps = 1"
  shows "0 \<le> conservation_value q ps" and "conservation_value q ps \<le> log 2 (real q)"
proof -
  have le1: "\<forall>x\<in>set ps. x \<le> 1"
    using member_le_sum_list_real [OF nn] one by auto
  have "(\<Sum>x\<leftarrow>ps. xlog2 x) \<le> (\<Sum>x\<leftarrow>ps. 0)"
    by (rule sum_list_mono) (use nn le1 in \<open>simp add: xlog2_nonpos\<close>)
  then show "conservation_value q ps \<le> log 2 (real q)"
    by (simp add: conservation_value_def)
  have "(\<Sum>x\<leftarrow>ps. x * (1 / ln 2 - log 2 (real q)) + (- (1 / real q) / ln 2)) \<le> (\<Sum>x\<leftarrow>ps. xlog2 x)"
  proof (rule sum_list_mono)
    fix x assume "x \<in> set ps"
    then have "0 \<le> x" using nn by simp
    with q show "x * (1 / ln 2 - log 2 (real q)) + (- (1 / real q) / ln 2) \<le> xlog2 x"
      by (rule xlog2_lower)
  qed
  moreover have "(\<Sum>x\<leftarrow>ps. x * (1 / ln 2 - log 2 (real q)) + (- (1 / real q) / ln 2))
      = - log 2 (real q)"
    unfolding sum_list_affine one len using q by (simp add: field_simps)
  ultimately show "0 \<le> conservation_value q ps"
    by (simp add: conservation_value_def)
qed

lemma conservation_concentrated:
  assumes "\<forall>x\<in>set ps. x = 0 \<or> x = 1"
  shows "conservation_value q ps = log 2 (real q)"
proof -
  have "(\<Sum>x\<leftarrow>ps. xlog2 x) = (\<Sum>x\<leftarrow>ps. 0)"
    by (rule arg_cong [where f = sum_list], rule map_cong) (use assms in \<open>auto simp: xlog2_def\<close>)
  then show ?thesis by (simp add: conservation_value_def)
qed

lemma conservation_uniform:
  assumes q: "0 < q" and len: "length ps = q" and u: "\<forall>x\<in>set ps. x = 1 / real q"
  shows "conservation_value q ps = 0"
proof -
  have "(\<Sum>x\<leftarrow>ps. xlog2 x) = (\<Sum>x\<leftarrow>ps. x * 0 + xlog2 (1 / real q))"
    by (rule arg_cong [where f = sum_list], rule map_cong) (use u in auto)
  also have "\<dots> = real q * xlog2 (1 / real q)"
    unfolding sum_list_affine len by simp
  also have "\<dots> = - log 2 (real q)"
    using q by (simp add: xlog2_def log_divide)
  finally show ?thesis by (simp add: conservation_value_def)
qed

lemma conservation_row_nan:
  "np_sub 1 (np_sum f) < 0 \<Longrightarrow> conservation_row q f = NaN"
  by (simp add: conservation_row_def Let_def nan_guard_def)

lemma conservation_1hot_single:
  assumes "2 \<le> q" and "length f = q - 1"
  shows "conservation_1hot f q = Inr [conservation_row q f]"
proof -
  have "block (q - 1) 0 f = f" using assms(2) by (simp add: block_def slice_def)
  then show ?thesis using assms by (simp add: conservation_1hot_def)
qed

text \<open>
  C5. The conservation of a valid frequency vector lies in \<open>[0, log2(q)]\<close>, as the
  docstring of \<open>conservation_1hot\<close> (\<open>Return the conservation, measured in bits.\<close>)
  promises; the code does not always return it. For \<open>q = 21\<close> and the position whose
  frequencies are the float64 values of \<open>1/9\<close>, \<open>5/9\<close>, \<open>1/9\<close>, \<open>1/9\<close>, \<open>1/9\<close> (first symbol
  and the last four explicit symbols; they lie in \<open>[0, 1]\<close> and their exact sum is \<open>1\<close>),
  the float64 sum of the block is \<open>1 + 2 ^ (- 52)\<close>, the implicit frequency \<open>lf\<close> is
  \<open>- 2 ^ (- 52)\<close>, the guard \<open>lf != 0\<close> lets it through, and \<open>np.log2(lf)\<close> makes the
  value NaN. The same happens for \<open>q = 6\<close> with the five frequencies as the block.
\<close>

theorem C5_conservation_nan:
  "list_all (\<lambda>x. 0 \<le> x \<and> x \<le> 1)
     [2001599834386887 / 2 ^ 54, 0, 0, 0, 0, 0, 0, 0, 0, 0, 0, 0, 0, 0, 0, 0, 2501999792983609 / 2 ^ 52, 2001599834386887 / 2 ^ 54, 2001599834386887 / 2 ^ 54, 2001599834386887 / 2 ^ 54 :: real]
   \<and> sum_list [2001599834386887 / 2 ^ 54, 0, 0, 0, 0, 0, 0, 0, 0, 0, 0, 0, 0, 0, 0, 0, 2501999792983609 / 2 ^ 52, 2001599834386887 / 2 ^ 54, 2001599834386887 / 2 ^ 54, 2001599834386887 / 2 ^ 54 :: real] = 1
   \<and> np_sum [2001599834386887 / 2 ^ 54, 0, 0, 0, 0, 0, 0, 0, 0, 0, 0, 0, 0, 0, 0, 0, 2501999792983609 / 2 ^ 52, 2001599834386887 / 2 ^ 54, 2001599834386887 / 2 ^ 54, 2001599834386887 / 2 ^ 54] = 1 + 1 / 2 ^ 52
   \<and> conservation_1hot [2001599834386887 / 2 ^ 54, 0, 0, 0, 0, 0, 0, 0, 0, 0, 0, 0, 0, 0, 0, 0, 2501999792983609 / 2 ^ 52, 2001599834386887 / 2 ^ 54, 2001599834386887 / 2 ^ 54, 2001599834386887 / 2 ^ 54] 21 = Inr [NaN]
   \<and> conservation_1hot [2001599834386887 / 2 ^ 54, 2501999792983609 / 2 ^ 52, 2001599834386887 / 2 ^ 54, 2001599834386887 / 2 ^ 54, 2001599834386887 / 2 ^ 54] 6 = Inr [NaN]"
proof -
  let ?a = "[2001599834386887 / 2 ^ 54, 0, 0, 0, 0, 0, 0, 0, 0, 0, 0, 0, 0, 0, 0, 0, 2501999792983609 / 2 ^ 52, 2001599834386887 / 2 ^ 54, 2001599834386887 / 2 ^ 54, 2001599834386887 / 2 ^ 54 :: real]"
  let ?b = "[2001599834386887 / 2 ^ 54, 2501999792983609 / 2 ^ 52, 2001599834386887 / 2 ^ 54, 2001599834386887 / 2 ^ 54, 2001599834386887 / 2 ^ 54 :: real]"
  have valid: "list_all (\<lambda>x. 0 \<le> x \<and> x \<le> 1) ?a" by code_simp
  have exact: "sum_list ?a = 1" by code_simp
  have sa: "np_sum ?a = 1 + 1 / 2 ^ 52" by code_simp
  have "np_sub 1 (np_sum ?a) < 0" by code_simp
  then have ra: "conservation_row 21 ?a = NaN" by (rule conservation_row_nan)
  have "np_sub 1 (np_sum ?b) < 0" by code_simp
  then have rb: "conservation_row 6 ?b = NaN" by (rule conservation_row_nan)
  have ca: "conservation_1hot ?a 21 = Inr [NaN]"
    using conservation_1hot_single [of 21 ?a] ra by simp
  have cb: "conservation_1hot ?b 6 = Inr [NaN]"
    using conservation_1hot_single [of 6 ?b] rb by simp
  from valid exact sa ca cb show ?thesis by blast
qed

section \<open>The proposals of the sampler\<close>

text \<open>
  The state that a step of \<open>metropolis\<close> proposes has the length of the current state
  and differs from it only in the block of the chosen position: the local energy
  difference is applied to states of this form.
\<close>

lemma proposal_differs_in_block:
  assumes "assign_slice lo (lo + m) s b = Inr s_t" and "length b = m"
  shows "length s_t = length s \<and> (\<forall>i<length s. i < lo \<or> lo + m \<le> i \<longrightarrow> s_t ! i = s ! i)"
proof -
  from assign_slice_cases [OF assms] show ?thesis
  proof
    assume "s_t = s"
    then show ?thesis by simp
  next
    assume h: "lo + m \<le> length s \<and> s_t = take lo s @ b @ drop (lo + m) s"
    then have "length s_t = length s" using assms(2) by simp
    moreover have "\<forall>i<length s. i < lo \<or> lo + m \<le> i \<longrightarrow> s_t ! i = s ! i"
      using h nth_replace_block [of lo m s b] assms(2) by auto
    ultimately show ?thesis by simp
  qed
qed

lemma t_1hot_entries: "set (t_1hot q_true t_n) \<subseteq> {0, 1}"
  by (auto simp: t_1hot_def dest: set_update_subset_insert [THEN subsetD])

end
